theory Spec2Isabelle
  imports Main "HOL-Library.Word" "HOL-Library.Multiset"
begin

unbundle bit_operations_syntax

section \<open>JavaScript numbers as the codecs use them\<close>

text \<open>
  The integer codecs and \<open>VarInt\<close> work on JavaScript numbers that hold integers; they
  are modelled as \<open>int\<close>. The bitwise operators of JavaScript first convert their operands
  with \<open>ToInt32\<close> (the value modulo \<open>2^32\<close>, read as two's complement), the shift
  operators take the shift count modulo 32, and \<open>>>\<close> propagates the sign.
\<close>

type_synonym u8 = "8 word"

definition ToInt32 :: "int \<Rightarrow> int" where
  "ToInt32 v = sint (word_of_int v :: 32 word)"

definition js_or :: "int \<Rightarrow> int \<Rightarrow> int" where
  "js_or a b = sint ((word_of_int a :: 32 word) OR word_of_int b)"

definition js_and :: "int \<Rightarrow> int \<Rightarrow> int" where
  "js_and a b = sint ((word_of_int a :: 32 word) AND word_of_int b)"

definition js_shl :: "int \<Rightarrow> int \<Rightarrow> int" where
  "js_shl a n = sint (push_bit (nat (n mod 32)) (word_of_int a :: 32 word))"

definition js_shr :: "int \<Rightarrow> int \<Rightarrow> int" where
  "js_shr a n = sint (signed_drop_bit (nat (n mod 32)) (word_of_int a :: 32 word))"

section \<open>The cursor and the buffer\<close>

text \<open>
  \<open>encode(d, t, v)\<close> and \<open>decode(d, t)\<close> receive two mutable objects: the \<open>DataView\<close>
  \<open>d\<close> and the \<open>DataViewTracker\<close> \<open>t\<close>. The record \<open>store\<close> holds both: \<open>view\<close> is
  the bytes the \<open>DataView\<close> covers (its accessors count offsets from the first of
  them and reject what leaves them), \<open>offset\<close> is the tracker's offset, and \<open>before\<close>
  and \<open>after\<close> are the bytes of the underlying \<open>ArrayBuffer\<close> in front of and behind
  the view, so \<open>d.byteOffset\<close> is the length of \<open>before\<close>. \<open>new DataView(buffer)\<close>
  covers the whole buffer: both are empty. A computation takes the store and returns
  its outcome together with the store it leaves; an exception is the outcome \<open>Inl\<close>,
  and the store beside it is the one at the moment of the throw (the tracker has
  already moved when a \<open>DataView\<close> accessor rejects the offset, since \<open>t.one()\<close> is
  evaluated first).
\<close>

datatype error = RangeError | TypeError

record store =
  view :: "u8 list"
  offset :: int
  before :: "u8 list"
  after :: "u8 list"

definition buffer :: "store \<Rightarrow> u8 list" where
  "buffer s = before s @ view s @ after s"

type_synonym 'a action = "store \<Rightarrow> (error + 'a) \<times> store"

definition return :: "'a \<Rightarrow> 'a action" where
  "return x s = (Inr x, s)"

definition throw :: "error \<Rightarrow> 'a action" where
  "throw e s = (Inl e, s)"

definition bind :: "'a action \<Rightarrow> ('a \<Rightarrow> 'b action) \<Rightarrow> 'b action" where
  "bind m f s = (case m s of (Inl e, s') \<Rightarrow> (Inl e, s') | (Inr x, s') \<Rightarrow> f x s')"

subsection \<open>DataViewTracker\<close>

definition many :: "int \<Rightarrow> int action" where
  "many amount s = (Inr (offset s), s\<lparr>offset := offset s + amount\<rparr>)"

definition one :: "int action" where
  "one s = (Inr (offset s), s\<lparr>offset := offset s + 1\<rparr>)"

definition reset :: "unit action" where
  "reset s = (Inr (), s\<lparr>offset := 0\<rparr>)"

subsection \<open>DataView\<close>

text \<open>
  Multi-byte accessors are called without the \<open>littleEndian\<close> argument, so they are
  big-endian. A setter reduces its number modulo \<open>2^(8n)\<close>; an accessor whose \<open>n\<close> bytes
  do not lie inside the view throws \<open>RangeError\<close>.
\<close>

fun be_bytes :: "nat \<Rightarrow> int \<Rightarrow> u8 list" where
  "be_bytes 0 v = []"
| "be_bytes (Suc n) v = be_bytes n (v div 256) @ [word_of_int v]"

definition be_value :: "u8 list \<Rightarrow> int" where
  "be_value bs = foldl (\<lambda>acc b. acc * 256 + uint b) 0 bs"

definition in_bounds :: "store \<Rightarrow> int \<Rightarrow> nat \<Rightarrow> bool" where
  "in_bounds s byteOffset n \<longleftrightarrow> 0 \<le> byteOffset \<and> byteOffset + int n \<le> int (length (view s))"

definition set_bytes :: "int \<Rightarrow> u8 list \<Rightarrow> unit action" where
  "set_bytes byteOffset bs s =
     (if in_bounds s byteOffset (length bs)
      then (Inr (), s\<lparr>view := take (nat byteOffset) (view s) @ bs
                               @ drop (nat byteOffset + length bs) (view s)\<rparr>)
      else (Inl RangeError, s))"

definition get_bytes :: "int \<Rightarrow> nat \<Rightarrow> u8 list action" where
  "get_bytes byteOffset n s =
     (if in_bounds s byteOffset n
      then (Inr (take n (drop (nat byteOffset) (view s))), s)
      else (Inl RangeError, s))"

definition setInt8 :: "int \<Rightarrow> int \<Rightarrow> unit action" where
  "setInt8 byteOffset v = set_bytes byteOffset (be_bytes 1 v)"

definition getInt8 :: "int \<Rightarrow> int action" where
  "getInt8 byteOffset = bind (get_bytes byteOffset 1) (\<lambda>bs. return (sint (word_of_int (be_value bs) :: 8 word)))"

definition setUint8 :: "int \<Rightarrow> int \<Rightarrow> unit action" where
  "setUint8 byteOffset v = set_bytes byteOffset (be_bytes 1 v)"

definition getUint8 :: "int \<Rightarrow> int action" where
  "getUint8 byteOffset = bind (get_bytes byteOffset 1) (\<lambda>bs. return (be_value bs))"

definition setInt16 :: "int \<Rightarrow> int \<Rightarrow> unit action" where
  "setInt16 byteOffset v = set_bytes byteOffset (be_bytes 2 v)"

definition getInt16 :: "int \<Rightarrow> int action" where
  "getInt16 byteOffset = bind (get_bytes byteOffset 2) (\<lambda>bs. return (sint (word_of_int (be_value bs) :: 16 word)))"

definition setUint16 :: "int \<Rightarrow> int \<Rightarrow> unit action" where
  "setUint16 byteOffset v = set_bytes byteOffset (be_bytes 2 v)"

definition getUint16 :: "int \<Rightarrow> int action" where
  "getUint16 byteOffset = bind (get_bytes byteOffset 2) (\<lambda>bs. return (be_value bs))"

definition setInt32 :: "int \<Rightarrow> int \<Rightarrow> unit action" where
  "setInt32 byteOffset v = set_bytes byteOffset (be_bytes 4 v)"

definition getInt32 :: "int \<Rightarrow> int action" where
  "getInt32 byteOffset = bind (get_bytes byteOffset 4) (\<lambda>bs. return (sint (word_of_int (be_value bs) :: 32 word)))"

definition setUint32 :: "int \<Rightarrow> int \<Rightarrow> unit action" where
  "setUint32 byteOffset v = set_bytes byteOffset (be_bytes 4 v)"

definition getUint32 :: "int \<Rightarrow> int action" where
  "getUint32 byteOffset = bind (get_bytes byteOffset 4) (\<lambda>bs. return (be_value bs))"


text \<open>
  A number handled by the float codecs is modelled by its IEEE 754 binary64 bit pattern.
  \<open>setFloat64\<close> stores the eight bytes of the pattern, \<open>getFloat64\<close> reads them back,
  and \<open>getFloat32\<close> reads four bytes as a binary32 pattern and returns the number with
  that value (every binary32 value is a binary64 value, so the widening is exact): an
  exponent field \<open>e\<close> of 1 to 254 becomes \<open>e + 896\<close> and the 23 fraction bits move to
  the top of the 52; a subnormal \<open>m * 2^-149\<close> is normalised at its highest set bit.
\<close>

type_synonym f64 = "64 word"

function top_bit :: "int \<Rightarrow> nat" where
  "top_bit m = (if m < 2 then 0 else Suc (top_bit (m div 2)))"
  by pat_completeness auto
termination
  by (relation "measure nat") auto

definition f32_to_f64 :: "32 word \<Rightarrow> f64" where
  "f32_to_f64 w =
     (let sign = push_bit 63 (ucast (drop_bit 31 w) :: 64 word);
          e = uint (take_bit 8 (drop_bit 23 w));
          m = uint (take_bit 23 w)
      in if e = 255 then sign OR push_bit 52 0x7FF OR push_bit 29 (word_of_int m)
         else if e = 0 then
           (if m = 0 then sign
            else sign OR push_bit 52 (word_of_int (int (top_bit m) + 874))
                      OR push_bit (52 - top_bit m) (word_of_int (m - 2 ^ top_bit m)))
         else sign OR push_bit 52 (word_of_int (e + 896)) OR push_bit 29 (word_of_int m))"

definition setFloat64 :: "int \<Rightarrow> f64 \<Rightarrow> unit action" where
  "setFloat64 byteOffset v = set_bytes byteOffset (be_bytes 8 (uint v))"

definition getFloat64 :: "int \<Rightarrow> f64 action" where
  "getFloat64 byteOffset = bind (get_bytes byteOffset 8) (\<lambda>bs. return (word_of_int (be_value bs)))"

definition getFloat32 :: "int \<Rightarrow> f64 action" where
  "getFloat32 byteOffset =
     bind (get_bytes byteOffset 4) (\<lambda>bs. return (f32_to_f64 (word_of_int (be_value bs))))"

section \<open>DataType and the primitive codecs (data.ts)\<close>

text \<open>
  \<open>DataSize<N>\<close> is either a number or a function of the value; \<open>DataType<N>\<close> bundles
  it with \<open>encode\<close> and \<open>decode\<close>. The field \<open>size\<close> is named \<open>size_of\<close> here.
\<close>

datatype 'v DataSize = Fixed nat | Computed "'v \<Rightarrow> nat"

record 'v DataType =
  size_of :: "'v DataSize"
  encode :: "'v \<Rightarrow> unit action"
  decode :: "'v action"

definition Int8 :: "int DataType" where
  "Int8 = \<lparr>size_of = Fixed 1,
           encode = (\<lambda>v. bind one (\<lambda>off. setInt8 off v)),
           decode = bind one (\<lambda>off. getInt8 off)\<rparr>"

definition Int16 :: "int DataType" where
  "Int16 = \<lparr>size_of = Fixed 2,
            encode = (\<lambda>v. bind (many 2) (\<lambda>off. setInt16 off v)),
            decode = bind (many 2) (\<lambda>off. getInt16 off)\<rparr>"

definition Int32 :: "int DataType" where
  "Int32 = \<lparr>size_of = Fixed 4,
            encode = (\<lambda>v. bind (many 4) (\<lambda>off. setInt32 off v)),
            decode = bind (many 4) (\<lambda>off. getInt32 off)\<rparr>"

definition UInt8 :: "int DataType" where
  "UInt8 = \<lparr>size_of = Fixed 1,
            encode = (\<lambda>v. bind one (\<lambda>off. setUint8 off v)),
            decode = bind one (\<lambda>off. getUint8 off)\<rparr>"

definition UInt16 :: "int DataType" where
  "UInt16 = \<lparr>size_of = Fixed 2,
             encode = (\<lambda>v. bind (many 2) (\<lambda>off. setUint16 off v)),
             decode = bind (many 2) (\<lambda>off. getUint16 off)\<rparr>"

definition UInt32 :: "int DataType" where
  "UInt32 = \<lparr>size_of = Fixed 4,
             encode = (\<lambda>v. bind (many 4) (\<lambda>off. setUint32 off v)),
             decode = bind (many 4) (\<lambda>off. getUint32 off)\<rparr>"

text \<open>\<open>Float32.encode\<close> calls \<open>setFloat64\<close> at an offset it advances by 4.\<close>

definition Float32 :: "f64 DataType" where
  "Float32 = \<lparr>size_of = Fixed 4,
              encode = (\<lambda>v. bind (many 4) (\<lambda>off. setFloat64 off v)),
              decode = bind (many 4) (\<lambda>off. getFloat32 off)\<rparr>"

definition Float64 :: "f64 DataType" where
  "Float64 = \<lparr>size_of = Fixed 8,
              encode = (\<lambda>v. bind (many 8) (\<lambda>off. setFloat64 off v)),
              decode = bind (many 8) (\<lambda>off. getFloat64 off)\<rparr>"

definition Bool :: "bool DataType" where
  "Bool = \<lparr>size_of = Fixed 1,
           encode = (\<lambda>v. encode UInt8 (if v then 1 else 0)),
           decode = bind (decode UInt8) (\<lambda>b. return (b = 1))\<rparr>"

section \<open>VarInt (data.ts)\<close>

text \<open>
  The two \<open>while\<close> loops of \<open>size\<close> and \<open>encode\<close> end: the first \<open>>>=\<close> brings the
  value into the 32-bit range, and from there a value of at least \<open>0x80\<close> is positive
  and shrinks.
\<close>

function VarInt_size_loop :: "int \<Rightarrow> nat \<Rightarrow> nat" where
  "VarInt_size_loop v sz = (if v \<ge> 0x80 then VarInt_size_loop (js_shr v 7) (sz + 1) else sz)"
  by pat_completeness auto
termination
proof (relation "measure (\<lambda>(v, sz). nat (min v (2 ^ 31)))")
  show "wf (measure (\<lambda>(v, sz). nat (min v (2 ^ 31))))" by simp
next
  fix v :: int and sz :: nat
  assume h: "0x80 \<le> v"
  have b: "sint (word_of_int v :: 32 word) < 2 ^ 31"
    using sint_range_size [of "word_of_int v :: 32 word"] by (simp add: word_size)
  have s: "js_shr v 7 = sint (word_of_int v :: 32 word) div 128"
    by (simp add: js_shr_def sint_signed_drop_bit_eq drop_bit_eq_div)
  have "js_shr v 7 < min v (2 ^ 31)"
  proof (cases "v < 2 ^ 31")
    case True
    then have "sint (word_of_int v :: 32 word) = v" using h by (simp add: int_word_sint)
    then show ?thesis using s h True by simp
  next
    case False
    then show ?thesis using s b by simp
  qed
  then show "((js_shr v 7, sz + 1), (v, sz)) \<in> measure (\<lambda>(v, sz). nat (min v (2 ^ 31)))"
    using h by simp
qed

definition VarInt_size :: "int \<Rightarrow> nat" where
  "VarInt_size v = VarInt_size_loop v 0 + 1"

function VarInt_encode :: "int \<Rightarrow> unit action" where
  "VarInt_encode v =
     (if v \<ge> 0x80
      then bind (encode UInt8 (js_or v 0x80)) (\<lambda>_. VarInt_encode (js_shr v 7))
      else encode UInt8 v)"
  by pat_completeness auto
termination
proof (relation "measure (\<lambda>v. nat (min v (2 ^ 31)))")
  show "wf (measure (\<lambda>v. nat (min v (2 ^ 31))))" by simp
next
  fix v :: int
  assume h: "0x80 \<le> v"
  have b: "sint (word_of_int v :: 32 word) < 2 ^ 31"
    using sint_range_size [of "word_of_int v :: 32 word"] by (simp add: word_size)
  have s: "js_shr v 7 = sint (word_of_int v :: 32 word) div 128"
    by (simp add: js_shr_def sint_signed_drop_bit_eq drop_bit_eq_div)
  have "js_shr v 7 < min v (2 ^ 31)"
  proof (cases "v < 2 ^ 31")
    case True
    then have "sint (word_of_int v :: 32 word) = v" using h by (simp add: int_word_sint)
    then show ?thesis using s h True by simp
  next
    case False
    then show ?thesis using s b by simp
  qed
  then show "(js_shr v 7, v) \<in> measure (\<lambda>v. nat (min v (2 ^ 31)))"
    using h by simp
qed

function VarInt_decode_loop :: "int \<Rightarrow> int \<Rightarrow> nat \<Rightarrow> int action" where
  "VarInt_decode_loop val bitOffset i =
     (if i < 10
      then bind (decode UInt8) (\<lambda>byte.
             if byte < 0x80
             then (if i = 9 \<and> byte > 1 then return val
                   else return (js_or val (js_shl byte bitOffset)))
             else VarInt_decode_loop (js_or val (js_shl (js_and byte 0x7f) bitOffset))
                    (bitOffset + 7) (i + 1))
      else return val)"
  by pat_completeness auto
termination
  by (relation "measure (\<lambda>(val, bitOffset, i). 10 - i)") auto

definition VarInt_decode :: "int action" where
  "VarInt_decode = VarInt_decode_loop 0 0 0"

definition VarInt :: "int DataType" where
  "VarInt = \<lparr>size_of = Computed VarInt_size, encode = VarInt_encode, decode = VarInt_decode\<rparr>"

definition VarIntSize :: "int \<Rightarrow> nat" where
  "VarIntSize = VarInt_size"


section \<open>ByteArray and Str (data.ts)\<close>

text \<open>
  A \<open>Uint8Array\<close> is the list of its bytes and a string the list of its UTF-16 code
  units (\<open>charCodeAt\<close> reads one, \<open>String.fromCharCode\<close> builds one from a number).
  \<open>new Uint8Array(d.buffer, byteOffset, length)\<close> counts its offset from the start of
  the \<open>ArrayBuffer\<close>, not of the view, and throws \<open>RangeError\<close> when the offset or the
  length is negative or the range leaves the buffer. The array it returns shares the
  buffer; nothing writes to the buffer after a decode, so the model returns the bytes.

  \<open>String.fromCharCode.apply(null, arr)\<close> passes every byte as one argument of a single
  call. How many arguments a call may have is left to the engine, and a call with more
  throws \<open>RangeError\<close>. The limit is not in the source: the model takes it as a
  parameter \<open>extra\<close> of \<open>Str\<close>, the number of arguments the engine accepts beyond
  65535, and so assumes that every engine accepts 65535.
\<close>

type_synonym js_string = "16 word list"

definition new_Uint8Array :: "int \<Rightarrow> int \<Rightarrow> u8 list action" where
  "new_Uint8Array byteOffset len s =
     (if 0 \<le> byteOffset \<and> 0 \<le> len \<and> byteOffset + len \<le> int (length (buffer s))
      then (Inr (take (nat len) (drop (nat byteOffset) (buffer s))), s)
      else (Inl RangeError, s))"

fun ByteArray_encode_loop :: "u8 list \<Rightarrow> unit action" where
  "ByteArray_encode_loop [] = return ()"
| "ByteArray_encode_loop (elm # rest) =
     bind (encode UInt8 (uint elm)) (\<lambda>_. ByteArray_encode_loop rest)"

definition ByteArray :: "u8 list DataType" where
  "ByteArray =
     \<lparr>size_of = Computed (\<lambda>v. VarIntSize (int (length v)) + length v),
      encode = (\<lambda>v. bind (encode VarInt (int (length v))) (\<lambda>_. ByteArray_encode_loop v)),
      decode = bind (decode VarInt) (\<lambda>sz. bind (many sz) (\<lambda>off. new_Uint8Array off sz))\<rparr>"

function Str_encode_loop :: "js_string \<Rightarrow> nat \<Rightarrow> unit action" where
  "Str_encode_loop v i =
     (if i < length v
      then bind (encode UInt8 (uint (v ! i))) (\<lambda>_. Str_encode_loop v (i + 1))
      else return ())"
  by pat_completeness auto
termination
  by (relation "measure (\<lambda>(v, i). length v - i)") auto

definition fromCharCode :: "u8 list \<Rightarrow> js_string" where
  "fromCharCode arr = map (\<lambda>b. word_of_int (uint b)) arr"

definition fromCharCode_apply :: "nat \<Rightarrow> u8 list \<Rightarrow> js_string action" where
  "fromCharCode_apply extra arr =
     (if int (length arr) \<le> 65535 + int extra then return (fromCharCode arr)
      else throw RangeError)"

definition Str :: "nat \<Rightarrow> js_string DataType" where
  "Str extra =
     \<lparr>size_of = Computed (\<lambda>v. VarIntSize (int (length v)) + length v),
      encode = (\<lambda>v. bind (encode VarInt (int (length v))) (\<lambda>_. Str_encode_loop v 0)),
      decode = bind (decode ByteArray) (\<lambda>arr. fromCharCode_apply extra arr)\<rparr>"

section \<open>Struct values and DataType<any>\<close>

text \<open>
  A struct layout holds codecs of different value types as \<open>DataType<any>\<close>, and a struct
  value is an object. \<open>jsval\<close> is the universe of the values the codecs of data.ts
  handle. An object is modelled by the properties it owns, a map from names to values.
  The type \<open>StructTyped<T>\<close> gives a struct value every field of the layout; for a
  value that owns no such property the model reads \<open>undefined\<close>. The assignment
  \<open>out[key] = v\<close> on the object \<open>{}\<close> that decode builds stores a property of that
  name, except for the key \<open>__proto__\<close>: there it reaches the setter that
  \<open>Object.prototype\<close> defines, and no property is stored (the setter replaces the
  prototype of \<open>out\<close> when \<open>v\<close> is an object; the model does not follow prototypes).
  \<open>as_any\<close> is the cast of a \<open>DataType<N>\<close> to \<open>DataType<any>\<close>. The TypeScript
  signatures exclude a call of a codec on a value of another type; the model does not
  follow JavaScript's coercions there and answers such a call with \<open>TypeError\<close>
  (size 0).
\<close>

datatype jsval =
    JUndefined
  | JNumber int
  | JFloat f64
  | JBoolean bool
  | JString js_string
  | JBytes "u8 list"
  | JObject "string \<Rightarrow> jsval option"

type_synonym js_object = "string \<Rightarrow> jsval option"

definition get_prop :: "js_object \<Rightarrow> string \<Rightarrow> jsval" where
  "get_prop obj key = (case obj key of Some v \<Rightarrow> v | None \<Rightarrow> JUndefined)"

definition set_prop :: "js_object \<Rightarrow> string \<Rightarrow> jsval \<Rightarrow> js_object" where
  "set_prop obj key v = (if key = ''__proto__'' then obj else obj(key \<mapsto> v))"

fun the_number :: "jsval \<Rightarrow> int option" where
  "the_number (JNumber n) = Some n"
| "the_number _ = None"

fun the_float :: "jsval \<Rightarrow> f64 option" where
  "the_float (JFloat x) = Some x"
| "the_float _ = None"

fun the_boolean :: "jsval \<Rightarrow> bool option" where
  "the_boolean (JBoolean b) = Some b"
| "the_boolean _ = None"

fun the_string :: "jsval \<Rightarrow> js_string option" where
  "the_string (JString x) = Some x"
| "the_string _ = None"

fun the_bytes :: "jsval \<Rightarrow> u8 list option" where
  "the_bytes (JBytes x) = Some x"
| "the_bytes _ = None"

definition as_any :: "('a \<Rightarrow> jsval) \<Rightarrow> (jsval \<Rightarrow> 'a option) \<Rightarrow> 'a DataType \<Rightarrow> jsval DataType" where
  "as_any box unbox type =
     \<lparr>size_of = (case size_of type of
                   Fixed n \<Rightarrow> Fixed n
                 | Computed f \<Rightarrow> Computed (\<lambda>v. case unbox v of Some x \<Rightarrow> f x | None \<Rightarrow> 0)),
      encode = (\<lambda>v. case unbox v of Some x \<Rightarrow> encode type x | None \<Rightarrow> throw TypeError),
      decode = bind (decode type) (\<lambda>x. return (box x))\<rparr>"

section \<open>StructDefinition and PacketDefinition (packets.ts)\<close>

text \<open>
  A \<open>StructLayout\<close> is an object whose properties are codecs; it is modelled as the list
  of its properties in their own order, and \<open>struct[key]\<close> is \<open>map_of\<close>, which gives
  \<open>None\<close> for \<open>undefined\<close>. The constructor fills \<open>fields[i]\<close> with
  \<open>[keys[i], struct[keys[i]]]\<close> for every index of \<open>keys\<close>. Reading \<open>size\<close>,
  \<open>encode\<close> or \<open>decode\<close> of an undefined codec throws \<open>TypeError\<close>.
\<close>

type_synonym StructLayout = "(string \<times> jsval DataType) list"
type_synonym DefinitionFields = "(string \<times> jsval DataType option) list"

record StructDefinition =
  fields_of :: DefinitionFields

record PacketDefinition = StructDefinition +
  id_packet :: int

definition new_StructDefinition :: "StructLayout \<Rightarrow> string list \<Rightarrow> StructDefinition" where
  "new_StructDefinition struct keys = \<lparr>fields_of = map (\<lambda>key. (key, map_of struct key)) keys\<rparr>"

definition new_PacketDefinition :: "int \<Rightarrow> StructLayout \<Rightarrow> string list \<Rightarrow> PacketDefinition" where
  "new_PacketDefinition ident struct keys =
     \<lparr>fields_of = map (\<lambda>key. (key, map_of struct key)) keys, id_packet = ident\<rparr>"

fun computeSize_loop :: "DefinitionFields \<Rightarrow> js_object \<Rightarrow> nat \<Rightarrow> error + nat" where
  "computeSize_loop [] packet sz = Inr sz"
| "computeSize_loop ((key, None) # rest) packet sz = Inl TypeError"
| "computeSize_loop ((key, Some type) # rest) packet sz =
     (case size_of type of
        Fixed s \<Rightarrow> computeSize_loop rest packet (sz + s)
      | Computed s \<Rightarrow> computeSize_loop rest packet (sz + s (get_prop packet key)))"

definition computeSize :: "'a StructDefinition_scheme \<Rightarrow> js_object \<Rightarrow> error + nat" where
  "computeSize def packet = computeSize_loop (fields_of def) packet 0"

fun decode_loop :: "DefinitionFields \<Rightarrow> js_object \<Rightarrow> js_object action" where
  "decode_loop [] out = return out"
| "decode_loop ((key, None) # rest) out = throw TypeError"
| "decode_loop ((key, Some type) # rest) out =
     bind (decode type) (\<lambda>v. decode_loop rest (set_prop out key v))"

definition StructDefinition_decode :: "'a StructDefinition_scheme \<Rightarrow> js_object action" where
  "StructDefinition_decode def = decode_loop (fields_of def) Map.empty"

fun encode_loop :: "DefinitionFields \<Rightarrow> js_object \<Rightarrow> unit action" where
  "encode_loop [] struct = return ()"
| "encode_loop ((key, None) # rest) struct = throw TypeError"
| "encode_loop ((key, Some type) # rest) struct =
     bind (encode type (get_prop struct key)) (\<lambda>_. encode_loop rest struct)"

definition StructDefinition_encode :: "'a StructDefinition_scheme \<Rightarrow> js_object \<Rightarrow> unit action" where
  "StructDefinition_encode def struct = encode_loop (fields_of def) struct"

text \<open>
  \<open>create\<close> receives the write tracker, allocates a zero-filled \<open>ArrayBuffer\<close> and returns
  it; the model returns the buffer (or the exception) and the tracker's offset after
  the call. An exception leaves \<open>create\<close> before \<open>writeTracker.reset()\<close>.
\<close>

definition create :: "PacketDefinition \<Rightarrow> int \<Rightarrow> js_object \<Rightarrow> (error + u8 list) \<times> int" where
  "create def writeTracker data =
     (case computeSize def data of
        Inl e \<Rightarrow> (Inl e, writeTracker)
      | Inr body \<Rightarrow>
          (case bind (encode VarInt (id_packet def))
                  (\<lambda>_. bind (StructDefinition_encode def data) (\<lambda>_. reset))
                  \<lparr>view = replicate (VarIntSize (id_packet def) + body) 0, offset = writeTracker, before = [], after = []\<rparr> of
             (Inl e, s) \<Rightarrow> (Inl e, offset s)
           | (Inr _, s) \<Rightarrow> (Inr (view s), offset s)))"

section \<open>Receiving a message (socket.ts)\<close>

text \<open>
  \<open>onmessage\<close> reads the identifier, looks the definition up, decodes the body with it
  and resets the read tracker. The model returns the identifier with the decoded struct
  (\<open>None\<close> when no definition is registered) and the read tracker's offset afterwards;
  the listeners are left out.
\<close>

definition onmessage ::
  "(int \<Rightarrow> PacketDefinition option) \<Rightarrow> u8 list \<Rightarrow> int \<Rightarrow> (error + int \<times> js_object option) \<times> int" where
  "onmessage definitions data readTracker =
     (case bind (decode VarInt) (\<lambda>ident.
             case definitions ident of
               Some definition \<Rightarrow>
                 bind (StructDefinition_decode definition)
                   (\<lambda>out. bind reset (\<lambda>_. return (ident, Some out)))
             | None \<Rightarrow> bind reset (\<lambda>_. return (ident, None)))
           \<lparr>view = data, offset = readTracker, before = [], after = []\<rparr> of
        (r, s) \<Rightarrow> (r, offset s))"

section \<open>Notions used to state the properties\<close>

text \<open>
  \<open>size_at\<close> is the test \<open>typeof s === 'number'\<close> of \<open>getSizeOf\<close> and \<open>computeSize\<close>:
  a fixed size is taken as it is, a size function is run on the value.
  \<open>encode_alone\<close> encodes a value at cursor 0 into a fresh buffer of exactly its
  declared size, which is how \<open>create\<close> uses a codec.
\<close>

definition size_at :: "'v DataSize \<Rightarrow> 'v \<Rightarrow> nat" where
  "size_at sz v = (case sz of Fixed n \<Rightarrow> n | Computed f \<Rightarrow> f v)"

definition encode_alone :: "'v DataType \<Rightarrow> 'v \<Rightarrow> (error + unit) \<times> store" where
  "encode_alone type v = encode type v \<lparr>view = replicate (size_at (size_of type) v) 0, offset = 0, before = [], after = []\<rparr>"

text \<open>
  \<open>place bs s\<close> is the store after \<open>bs\<close> has been written at the cursor and the cursor
  has moved past it; \<open>holds s bs\<close> says that the view holds \<open>bs\<close> at the cursor;
  \<open>skip n s\<close> moves the cursor by \<open>n\<close>.
\<close>

definition place :: "u8 list \<Rightarrow> store \<Rightarrow> store" where
  "place bs s = s\<lparr>view := take (nat (offset s)) (view s) @ bs
                            @ drop (nat (offset s) + length bs) (view s),
                 offset := offset s + int (length bs)\<rparr>"

definition holds :: "store \<Rightarrow> u8 list \<Rightarrow> bool" where
  "holds s bs \<longleftrightarrow>
     in_bounds s (offset s) (length bs) \<and> take (length bs) (drop (nat (offset s)) (view s)) = bs"

definition skip :: "nat \<Rightarrow> store \<Rightarrow> store" where
  "skip n s = s\<lparr>offset := offset s + int n\<rparr>"

text \<open>
  The VarInt rule in the words of the specification, on unbounded integers: the size is
  the number of right-shifts by 7 bits that bring the value below \<open>0x80\<close>, plus one;
  encoding emits \<open>(value & 0x7f) | 0x80\<close> and shifts right by 7 while the value is at
  least \<open>0x80\<close>, then emits what remains.
\<close>

function spec_shifts :: "int \<Rightarrow> nat" where
  "spec_shifts v = (if v \<ge> 0x80 then Suc (spec_shifts (drop_bit 7 v)) else 0)"
  by pat_completeness auto
termination
  by (relation "measure nat") (auto simp: drop_bit_eq_div)

definition spec_varint_size :: "int \<Rightarrow> nat" where
  "spec_varint_size v = spec_shifts v + 1"

function spec_varint_encode :: "int \<Rightarrow> int list" where
  "spec_varint_encode v =
     (if v \<ge> 0x80 then ((v AND 0x7f) OR 0x80) # spec_varint_encode (drop_bit 7 v) else [v])"
  by pat_completeness auto
termination
  by (relation "measure nat") (auto simp: drop_bit_eq_div)

text \<open>
  The packet of the README: identifier 2, a string \<open>name\<close> and an 8-bit \<open>user\<close>, on an
  engine that accepts \<open>65535 + extra\<close> arguments.
\<close>

definition TestPacket :: "nat \<Rightarrow> PacketDefinition" where
  "TestPacket extra = new_PacketDefinition 2
     [(''name'', as_any JString the_string (Str extra)), (''user'', as_any JNumber the_number UInt8)]
     [''name'', ''user'']"

definition testData :: js_object where
  "testData = [''name'' \<mapsto> JString [0x61, 0x62], ''user'' \<mapsto> JNumber 5]"

text \<open>
  The decoder's folding rule in the words of the specification: a byte's low 7 bits are
  folded in at the current bit offset, and the bit offset advances by 7.
\<close>

definition fold_group :: "int \<times> int \<Rightarrow> int \<Rightarrow> int \<times> int" where
  "fold_group acc byte = (js_or (fst acc) (js_shl (js_and byte 0x7f) (snd acc)), snd acc + 7)"

definition fold_groups :: "int list \<Rightarrow> int" where
  "fold_groups bytes = fst (foldl fold_group (0, 0) bytes)"

text \<open>
  A codec writes exactly \<open>bs\<close> for \<open>v\<close> when \<open>bs\<close> has the declared size of \<open>v\<close> and
  encoding \<open>v\<close> puts \<open>bs\<close> at the cursor of any view with room for it; it reads
  exactly \<open>bs\<close> as \<open>v\<close> through the view of \<open>s0\<close> when decoding at a cursor where
  that view (a view with the same bytes of the buffer around it) holds \<open>bs\<close> returns
  \<open>v\<close> and moves past \<open>bs\<close>.
\<close>

definition writes_exactly :: "'v DataType \<Rightarrow> 'v \<Rightarrow> u8 list \<Rightarrow> bool" where
  "writes_exactly type v bs \<longleftrightarrow>
     size_at (size_of type) v = length bs \<and>
     (\<forall>s. in_bounds s (offset s) (length bs) \<longrightarrow> encode type v s = (Inr (), place bs s))"




text \<open>A packet with one \<open>Float32\<close> field.\<close>

definition FloatPacket :: PacketDefinition where
  "FloatPacket = new_PacketDefinition 1 [(''f'', as_any JFloat the_float Float32)] [''f'']"


declare VarInt_size_loop.simps [simp del] VarInt_encode.simps [simp del]
  VarInt_decode_loop.simps [simp del] Str_encode_loop.simps [simp del] top_bit.simps [simp del]
  spec_shifts.simps [simp del] spec_varint_encode.simps [simp del]

section \<open>Arithmetic of the JavaScript operators and of byte lists\<close>

lemma js_shr_7: "js_shr v 7 = ToInt32 v div 128"
  by (simp add: js_shr_def ToInt32_def sint_signed_drop_bit_eq drop_bit_eq_div)

lemma ToInt32_id: "- (2 ^ 31) \<le> v \<Longrightarrow> v < 2 ^ 31 \<Longrightarrow> ToInt32 v = v"
  unfolding ToInt32_def by (simp add: int_word_sint)

lemma length_be_bytes [simp]: "length (be_bytes n v) = n"
  by (induction n arbitrary: v) simp_all

lemma be_value_snoc: "be_value (bs @ [b]) = be_value bs * 256 + uint b"
  by (simp add: be_value_def)

lemma be_value_be_bytes: "be_value (be_bytes n v) = v mod 2 ^ (8 * n)"
proof (induction n arbitrary: v)
  case 0
  show ?case by (simp add: be_value_def)
next
  case (Suc n)
  have "uint (word_of_int v :: u8) = v mod 256"
    by (simp add: uint_word_of_int)
  then have "be_value (be_bytes (Suc n) v) = (v div 256) mod 2 ^ (8 * n) * 256 + v mod 256"
    by (simp add: be_value_snoc Suc.IH)
  also have "\<dots> = v mod 2 ^ (8 * Suc n)"
  proof -
    have e: "(2::int) ^ (8 * Suc n) = 256 * 2 ^ (8 * n)" by (simp add: power_add)
    have "v mod (256 * 2 ^ (8 * n)) = 256 * (v div 256 mod 2 ^ (8 * n)) + v mod 256"
      by (rule zmod_zmult2_eq) simp
    then show ?thesis unfolding e by simp
  qed
  finally show ?case .
qed


lemma many_encode:
  "in_bounds s (offset s) (length bs) \<Longrightarrow>
   bind (many (int (length bs))) (\<lambda>off. set_bytes off bs) s = (Inr (), place bs s)"
  by (simp add: bind_def many_def set_bytes_def in_bounds_def place_def)

lemma one_encode:
  "in_bounds s (offset s) 1 \<Longrightarrow>
   bind one (\<lambda>off. set_bytes off [b]) s = (Inr (), place [b] s)"
  by (simp add: bind_def one_def set_bytes_def in_bounds_def place_def)

lemma holds_in_bounds: "holds s bs \<Longrightarrow> in_bounds s (offset s) (length bs)"
  by (simp add: holds_def)

lemma many_decode:
  "holds s bs \<Longrightarrow> n = length bs \<Longrightarrow>
   bind (many (int n)) (\<lambda>off. bind (get_bytes off n) (\<lambda>bs. return (f bs))) s = (Inr (f bs), skip n s)"
  using holds_in_bounds[of s bs]
  by (simp add: bind_def many_def get_bytes_def in_bounds_def holds_def skip_def return_def)


lemma holds_place:
  "in_bounds s (offset s) (length bs) \<Longrightarrow> holds ((place bs s)\<lparr>offset := offset s\<rparr>) bs"
  by (auto simp: holds_def place_def in_bounds_def)

lemma take_app_iff:
  "length as \<le> length xs \<Longrightarrow>
   (take (length as + length bs) xs = as @ bs) = (take (length as) xs = as \<and> take (length bs) (drop (length as) xs) = bs)"
  by (simp add: take_add)


lemma holds_app: "holds s (as @ bs) \<longleftrightarrow> holds s as \<and> holds (skip (length as) s) bs"
proof (cases "in_bounds s (offset s) (length as)")
  case False
  then show ?thesis by (auto simp: holds_def in_bounds_def)
next
  case True
  define k where "k = nat (offset s)"
  define xs where "xs = drop k (view s)"
  have off: "offset s = int k" using True by (simp add: k_def in_bounds_def)
  have le: "length as \<le> length xs" using True by (simp add: xs_def in_bounds_def off)
  have b: "in_bounds s (offset s) (length (as @ bs)) \<longleftrightarrow>
        in_bounds (skip (length as) s) (offset (skip (length as) s)) (length bs)"
    by (simp add: in_bounds_def skip_def off add.assoc)
  have d: "drop (nat (offset (skip (length as) s))) (view (skip (length as) s)) = drop (length as) xs"
    by (simp add: skip_def off xs_def nat_add_distrib add.commute)
  have "holds s (as @ bs) \<longleftrightarrow>
        in_bounds s (offset s) (length (as @ bs)) \<and> take (length as + length bs) xs = as @ bs"
    by (simp add: holds_def xs_def k_def)
  also have "\<dots> \<longleftrightarrow> in_bounds s (offset s) (length (as @ bs)) \<and>
        take (length as) xs = as \<and> take (length bs) (drop (length as) xs) = bs"
    using take_app_iff [OF le, of bs] by simp
  also have "\<dots> \<longleftrightarrow> holds s as \<and> holds (skip (length as) s) bs"
    using True b d by (auto simp: holds_def xs_def k_def)
  finally show ?thesis .
qed

lemma overwrite_twice:
  fixes xs :: "'a list"
  assumes le: "k + length as + length bs \<le> length xs"
  shows "take (k + length as) (take k xs @ as @ drop (k + length as) xs) @ bs
           @ drop (k + length as + length bs) (take k xs @ as @ drop (k + length as) xs)
         = take k xs @ (as @ bs) @ drop (k + length (as @ bs)) xs"
proof -
  define p where "p = take k xs @ as"
  define q where "q = drop (k + length as) xs"
  have lp: "length p = k + length as" using le by (simp add: p_def)
  have t: "take (k + length as) (p @ q) = p" using lp by simp
  have d: "drop (k + length as + length bs) (p @ q) = drop (length bs) q" using lp by simp
  have dq: "drop (length bs) q = drop (k + length (as @ bs)) xs"
    by (simp add: q_def add.commute add.left_commute)
  have "take (k + length as) (p @ q) @ bs @ drop (k + length as + length bs) (p @ q)
          = p @ bs @ drop (k + length (as @ bs)) xs"
    by (simp only: t d dq)
  then show ?thesis by (simp add: p_def q_def)
qed

lemma place_app:
  "in_bounds s (offset s) (length as + length bs) \<Longrightarrow> place (as @ bs) s = place bs (place as s)"
proof -
  assume h: "in_bounds s (offset s) (length as + length bs)"
  define k where "k = nat (offset s)"
  have off: "offset s = int k" using h by (simp add: k_def in_bounds_def)
  have le: "k + length as + length bs \<le> length (view s)" using h by (simp add: in_bounds_def off)
  have n: "nat (int k + int (length as)) = k + length as" by (simp add: nat_add_distrib)
  have "view (place bs (place as s)) = view (place (as @ bs) s)"
    using overwrite_twice [OF le] by (simp add: place_def off n)
  moreover have "offset (place bs (place as s)) = offset (place (as @ bs) s)"
    by (simp add: place_def)
  moreover have "before (place bs (place as s)) = before (place (as @ bs) s)"
    and "after (place bs (place as s)) = after (place (as @ bs) s)"
    by (simp_all add: place_def)
  moreover have "store.more (place bs (place as s)) = store.more (place (as @ bs) s)"
    by (simp add: place_def)
  ultimately show ?thesis by simp
qed

lemma place_view_length [simp]:
  "in_bounds s (offset s) (length bs) \<Longrightarrow> length (view (place bs s)) = length (view s)"
  by (auto simp: place_def in_bounds_def)

lemma place_offset [simp]: "offset (place bs s) = offset s + int (length bs)"
  by (simp add: place_def)

lemma skip_offset [simp]: "offset (skip n s) = offset s + int n"
  by (simp add: skip_def)

lemma skip_view [simp]: "view (skip n s) = view s"
  by (simp add: skip_def)

lemma skip_skip: "skip m (skip n s) = skip (n + m) s"
  by (simp add: skip_def)

lemma place_rewind_skip:
  "skip (length bs) ((place bs s)\<lparr>offset := offset s\<rparr>) = place bs s"
  by (simp add: place_def skip_def)

lemma UInt8_encode: "in_bounds s (offset s) 1 \<Longrightarrow> encode UInt8 v s = (Inr (), place [word_of_int v] s)"
  by (simp add: UInt8_def setUint8_def one_encode)

lemma holds_Cons_byte:
  "holds s (b # bs) \<Longrightarrow> decode UInt8 s = (Inr (uint b), skip 1 s) \<and> holds (skip 1 s) bs"
proof -
  assume h: "holds s (b # bs)"
  have a: "holds s [b]" and r: "holds (skip 1 s) bs"
    using h holds_app [of s "[b]" bs] by simp_all
  have "decode UInt8 s = (Inr (be_value [b]), skip 1 s)"
    using many_decode [OF a, of 1 be_value]
    by (simp add: UInt8_def getUint8_def bind_def one_def many_def)
  then show ?thesis using r by (simp add: be_value_def)
qed

lemma bit_128_int: "bit (128::int) n \<longleftrightarrow> n = 7"
proof -
  have e: "(128::int) = 2 ^ 7" by simp
  show ?thesis unfolding e bit_exp_iff by auto
qed

lemma bit_127_int: "bit (127::int) n \<longleftrightarrow> n < 7"
proof -
  have "bit (mask 7 :: int) n \<longleftrightarrow> n < 7" by (auto simp: bit_mask_iff)
  then show ?thesis by (simp add: mask_eq_exp_minus_1)
qed

lemma bit_128_word: "bit (128::'a::len word) n \<longleftrightarrow> n = 7 \<and> 7 < LENGTH('a)"
proof -
  have e: "(128::'a word) = 2 ^ 7" by simp
  show ?thesis unfolding e bit_exp_iff by (auto simp: possible_bit_word)
qed

lemma byte_cont: "(word_of_int (js_or v 0x80) :: u8) = word_of_int ((v AND 0x7f) OR 0x80)"
  unfolding js_or_def
  by (rule bit_word_eqI) (auto simp: bit_simps bit_128_int bit_127_int bit_128_word)

lemma and_7f: "(v::int) AND 0x7f = v mod 128"
proof -
  have "v AND mask 7 = v mod 2 ^ 7" by (simp add: take_bit_eq_mod flip: take_bit_eq_mask)
  then show ?thesis by (simp add: mask_eq_exp_minus_1)
qed

lemma or_80: "0 \<le> m \<Longrightarrow> m < 128 \<Longrightarrow> (m::int) OR 0x80 = m + 128"
proof -
  assume "0 \<le> m" "m < 128"
  then have "\<not> bit m 7" 
    by (simp add: bit_iff_odd)
  then have "\<not> bit m n \<or> \<not> bit (128::int) n" for n by (auto simp: bit_128_int)
  then show ?thesis using disjunctive_add [of m 128] by simp
qed

lemma uint_byte_cont: "uint (word_of_int ((v AND 0x7f) OR 0x80) :: u8) = v mod 128 + 128"
proof -
  have r: "0 \<le> v mod 128" "v mod 128 < 128" by simp_all
  then have e: "(v AND 0x7f) OR 0x80 = v mod 128 + 128" by (simp add: and_7f or_80)
  have "uint (word_of_int (v mod 128 + 128) :: u8) = (v mod 128 + 128) mod 2 ^ 8"
    using uint_word_of_int [of "v mod 128 + 128", where 'a = 8] by simp
  also have "\<dots> = v mod 128 + 128"
    using r by (intro mod_pos_pos_trivial) simp_all
  finally show ?thesis by (simp only: e)
qed

lemma js_and_7f: "0 \<le> x \<Longrightarrow> x < 256 \<Longrightarrow> js_and x 0x7f = x mod 128"
proof -
  assume h: "0 \<le> x" "x < 256"
  have "(word_of_int x :: 32 word) AND word_of_int 0x7f = word_of_int (x AND 0x7f)"
    by (simp add: of_int_and_eq)
  then have "js_and x 0x7f = sint (word_of_int (x mod 128) :: 32 word)"
    by (simp add: js_and_def and_7f)
  moreover have "0 \<le> x mod 128" "x mod 128 < 128" by simp_all
  ultimately show ?thesis by (simp add: int_word_sint)
qed

lemma or_push_bit_add:
  fixes a b :: int
  assumes "0 \<le> a" "a < 2 ^ n"
  shows "a OR push_bit n b = a + b * 2 ^ n"
proof -
  have ta: "take_bit n a = a" using assms by (simp add: take_bit_int_eq_self)
  have "\<not> bit a k \<or> \<not> bit (push_bit n b) k" for k
  proof (cases "k < n")
    case True
    then show ?thesis by (simp add: bit_push_bit_iff)
  next
    case False
    have "bit (take_bit n a) k \<longleftrightarrow> k < n \<and> bit a k" by (simp add: bit_take_bit_iff)
    then show ?thesis using False ta by simp
  qed
  then have "a + push_bit n b = a OR push_bit n b" by (rule disjunctive_add)
  then show ?thesis by (simp add: push_bit_eq_mult)
qed

lemma js_or_shl:
  assumes "0 \<le> a" "a < 2 ^ n" "0 \<le> b" "a + b * 2 ^ n < 2 ^ 31" "n < 32"
  shows "js_or a (js_shl b (int n)) = a + b * 2 ^ n"
proof -
  have m: "nat (int n mod 32) = n" using assms(5) by simp
  have "js_or a (js_shl b (int n)) = sint ((word_of_int a :: 32 word) OR push_bit n (word_of_int b))"
    by (simp add: js_or_def js_shl_def m)
  also have "(word_of_int a :: 32 word) OR push_bit n (word_of_int b) = word_of_int (a OR push_bit n b)"
    by (simp add: of_int_or_eq of_int_push_bit)
  also have "a OR push_bit n b = a + b * 2 ^ n" using assms by (simp add: or_push_bit_add)
  also have "sint (word_of_int (a + b * 2 ^ n) :: 32 word) = a + b * 2 ^ n"
  proof -
    have "0 \<le> a + b * 2 ^ n" using assms by simp
    then have "ToInt32 (a + b * 2 ^ n) = a + b * 2 ^ n" using assms(4) by (intro ToInt32_id) simp_all
    then show ?thesis by (simp only: ToInt32_def)
  qed
  finally show ?thesis .
qed

section \<open>VarInt against the rule of the specification\<close>

lemma js_shr_7_small: "0 \<le> v \<Longrightarrow> v < 2 ^ 31 \<Longrightarrow> js_shr v 7 = drop_bit 7 v"
  by (simp add: js_shr_7 ToInt32_id drop_bit_eq_div)

lemma drop_bit_7_range:
  "0 \<le> (v::int) \<Longrightarrow> v < 2 ^ 31 \<Longrightarrow> 0 \<le> drop_bit 7 v \<and> drop_bit 7 v < 2 ^ 31"
  unfolding drop_bit_eq_div by (simp, linarith)

lemma VarInt_size_loop_spec:
  "0 \<le> v \<Longrightarrow> v < 2 ^ 31 \<Longrightarrow> VarInt_size_loop v sz = sz + spec_shifts v"
proof (induction v arbitrary: sz rule: spec_shifts.induct)
  case (1 v)
  show ?case
  proof (cases "v \<ge> 0x80")
    case True
    have r: "0 \<le> drop_bit 7 v" "drop_bit 7 v < 2 ^ 31"
      using drop_bit_7_range [of v] 1 by simp_all
    have "VarInt_size_loop v sz = VarInt_size_loop (drop_bit 7 v) (sz + 1)"
      using True 1 by (subst VarInt_size_loop.simps) (simp add: js_shr_7_small)
    also have "\<dots> = sz + 1 + spec_shifts (drop_bit 7 v)"
      using "1.IH" [OF True r] .
    also have "\<dots> = sz + spec_shifts v"
      using True by (subst (2) spec_shifts.simps) simp
    finally show ?thesis .
  next
    case False
    then show ?thesis
      by (subst VarInt_size_loop.simps, subst spec_shifts.simps) simp
  qed
qed

lemma VarInt_size_spec: "0 \<le> v \<Longrightarrow> v < 2 ^ 31 \<Longrightarrow> VarInt_size v = spec_varint_size v"
  by (simp add: VarInt_size_def spec_varint_size_def VarInt_size_loop_spec)

lemma length_spec_varint_encode: "length (spec_varint_encode v) = spec_varint_size v"
proof (induction v rule: spec_varint_encode.induct)
  case (1 v)
  show ?case
  proof (cases "v \<ge> 0x80")
    case True
    have "spec_varint_encode v = ((v AND 0x7f) OR 0x80) # spec_varint_encode (drop_bit 7 v)"
      using True by (subst spec_varint_encode.simps) simp
    moreover have "spec_shifts v = Suc (spec_shifts (drop_bit 7 v))"
      using True by (subst spec_shifts.simps) simp
    ultimately show ?thesis
      using "1.IH" [OF True] by (simp add: spec_varint_size_def)
  next
    case False
    then show ?thesis
      by (subst spec_varint_encode.simps) (simp add: spec_varint_size_def spec_shifts.simps)
  qed
qed

lemma in_bounds_place_rest:
  "in_bounds s (offset s) (length as + n) \<Longrightarrow> in_bounds (place as s) (offset (place as s)) n"
  by (auto simp: in_bounds_def place_def)

lemma in_bounds_less: "in_bounds s off (m + n) \<Longrightarrow> in_bounds s off m"
  by (simp add: in_bounds_def)

lemma VarInt_encode_spec:
  "0 \<le> v \<Longrightarrow> v < 2 ^ 31 \<Longrightarrow> in_bounds s (offset s) (length (spec_varint_encode v)) \<Longrightarrow>
   VarInt_encode v s = (Inr (), place (map word_of_int (spec_varint_encode v)) s)"
proof (induction v arbitrary: s rule: spec_varint_encode.induct)
  case (1 v)
  show ?case
  proof (cases "v \<ge> 0x80")
    case True
    define b :: u8 where "b = word_of_int ((v AND 0x7f) OR 0x80)"
    define rest where "rest = spec_varint_encode (drop_bit 7 v)"
    have e: "spec_varint_encode v = ((v AND 0x7f) OR 0x80) # rest"
      using True by (subst spec_varint_encode.simps) (simp add: rest_def)
    have r: "0 \<le> drop_bit 7 v" "drop_bit 7 v < 2 ^ 31"
      using drop_bit_7_range [of v] 1 by simp_all
    have ib: "in_bounds s (offset s) (length [b] + length rest)"
      using "1.prems"(3) by (simp add: e)
    have ib1: "in_bounds s (offset s) 1"
      using in_bounds_less [of s "offset s" 1 "length rest"] ib by simp
    have ib2: "in_bounds (place [b] s) (offset (place [b] s)) (length rest)"
      using in_bounds_place_rest [OF ib] .
    have first: "encode UInt8 (js_or v 0x80) s = (Inr (), place [b] s)"
      using UInt8_encode [OF ib1, of "js_or v 0x80"] by (simp add: byte_cont b_def)
    have "VarInt_encode v s = VarInt_encode (drop_bit 7 v) (place [b] s)"
      using True 1 by (subst VarInt_encode.simps) (simp add: bind_def first js_shr_7_small)
    also have "\<dots> = (Inr (), place (map word_of_int rest) (place [b] s))"
      using "1.IH" [OF True r] ib2 by (simp add: rest_def)
    also have "place (map word_of_int rest) (place [b] s) = place ([b] @ map word_of_int rest) s"
      using place_app [of s "[b]" "map word_of_int rest"] ib by simp
    finally show ?thesis by (simp add: e b_def)
  next
    case False
    have e: "spec_varint_encode v = [v]"
      using False by (subst spec_varint_encode.simps) simp
    have "VarInt_encode v s = encode UInt8 v s"
      using False by (subst VarInt_encode.simps) simp
    then show ?thesis using UInt8_encode [of s v] "1.prems"(3) by (simp add: e)
  qed
qed

lemma uint_small_byte: "0 \<le> v \<Longrightarrow> v < 256 \<Longrightarrow> uint (word_of_int v :: u8) = v"
  by (simp add: uint_word_of_int)

lemma VarInt_decode_loop_spec:
  assumes "0 \<le> v" "0 \<le> val" "val < 2 ^ (7 * i)" "val + v * 2 ^ (7 * i) < 2 ^ 31" "i \<le> 4"
    and "holds s (map word_of_int (spec_varint_encode v))"
  shows "VarInt_decode_loop val (7 * int i) i s
         = (Inr (val + v * 2 ^ (7 * i)), skip (length (spec_varint_encode v)) s)"
  using assms
proof (induction v arbitrary: val i s rule: spec_varint_encode.induct)
  case (1 v)
  define P :: int where "P = 2 ^ (7 * i)"
  have Ppos: "0 < P" by (simp add: P_def)
  have n32: "7 * i < 32" using "1.prems"(5) by simp
  have p3: "val < P" using "1.prems"(3) by (simp add: P_def)
  have p4: "val + v * P < 2 ^ 31" using "1.prems"(4) by (simp add: P_def)
  show ?case
  proof (cases "v \<ge> 0x80")
    case True
    define b :: u8 where "b = word_of_int ((v AND 0x7f) OR 0x80)"
    define rest where "rest = spec_varint_encode (drop_bit 7 v)"
    define m where "m = v mod 128"
    define q where "q = v div 128"
    have e: "spec_varint_encode v = ((v AND 0x7f) OR 0x80) # rest"
      using True by (subst spec_varint_encode.simps) (simp add: rest_def)
    have vq: "v = 128 * q + m" by (simp add: q_def m_def)
    have m: "0 \<le> m" "m < 128" by (simp_all add: m_def)
    have q: "1 \<le> q" using True by (simp add: q_def)
    have ub: "uint b = m + 128" by (simp add: b_def uint_byte_cont m_def)
    have h: "holds s (b # map word_of_int rest)" using "1.prems"(6) by (simp add: e b_def)
    have d: "decode UInt8 s = (Inr (m + 128), skip 1 s)" and hr: "holds (skip 1 s) (map word_of_int rest)"
      using holds_Cons_byte [OF h] ub by simp_all
    have am: "js_and (m + 128) 0x7f = m"
      using js_and_7f [of "m + 128"] m by simp
    have small: "val + m * P < 2 ^ 31"
    proof -
      have "m * P \<le> v * P" using Ppos vq q m by (intro mult_right_mono) simp_all
      then show ?thesis using p4 by linarith
    qed
    have val': "js_or val (js_shl m (7 * int i)) = val + m * P"
      using js_or_shl [of val "7 * i" m] "1.prems"(2,3) m small n32 by (simp add: P_def)
    have P128: "128 * P \<le> v * P" using Ppos True by simp
    have i3: "i \<le> 3"
    proof (rule ccontr)
      assume "\<not> i \<le> 3"
      then have "i = 4" using "1.prems"(5) by simp
      then have "P = 2 ^ 28" by (simp add: P_def)
      then show False using P128 "1.prems"(2) p4 by simp
    qed
    have pw: "(2::int) ^ (7 * (i + 1)) = 128 * P" by (simp add: P_def power_add)
    have a1: "0 \<le> val + m * P" using "1.prems"(2) m Ppos by simp
    have a2: "val + m * P < 2 ^ (7 * (i + 1))"
    proof -
      have "m * P \<le> 127 * P" using m Ppos by (intro mult_right_mono) simp_all
      then show ?thesis using p3 unfolding pw by linarith
    qed
    have dq: "drop_bit 7 v = q" by (simp add: drop_bit_eq_div q_def)
    have "val + m * P + q * (128 * P) = val + (128 * q + m) * P" by (simp add: algebra_simps)
    then have a3: "val + m * P + drop_bit 7 v * 2 ^ (7 * (i + 1)) = val + v * P"
      by (simp only: dq pw vq [symmetric])
    have a3': "val + m * P + drop_bit 7 v * 2 ^ (7 * (i + 1)) < 2 ^ 31"
      using a3 p4 by linarith
    have a4: "0 \<le> drop_bit 7 v" using "1.prems"(1) by (simp add: drop_bit_eq_div)
    have bo: "7 * int i + 7 = 7 * int (i + 1)" by simp
    have "VarInt_decode_loop val (7 * int i) i s
          = VarInt_decode_loop (val + m * P) (7 * int (i + 1)) (i + 1) (skip 1 s)"
      using "1.prems"(5) m
      by (subst VarInt_decode_loop.simps) (simp add: bind_def d am val' bo)
    also have "\<dots> = (Inr (val + m * P + drop_bit 7 v * 2 ^ (7 * (i + 1))),
                     skip (length rest) (skip 1 s))"
      using "1.IH" [OF True a4 a1 a2 a3' _ hr [unfolded rest_def]] i3 by (simp add: rest_def)
    finally have "VarInt_decode_loop val (7 * int i) i s
          = (Inr (val + v * P), skip (length rest) (skip 1 s))"
      by (simp only: a3)
    then show ?thesis by (simp add: e skip_skip P_def)
  next
    case False
    have e: "spec_varint_encode v = [v]"
      using False by (subst spec_varint_encode.simps) simp
    have ub: "uint (word_of_int v :: u8) = v" using False "1.prems"(1) by (intro uint_small_byte) simp_all
    have d: "decode UInt8 s = (Inr v, skip 1 s)"
      using holds_Cons_byte [of s "word_of_int v" "[]"] "1.prems"(6) ub by (simp add: e)
    have r: "js_or val (js_shl v (7 * int i)) = val + v * P"
      using js_or_shl [of val "7 * i" v] "1.prems" n32 by (simp add: P_def)
    show ?thesis
      using "1.prems"(5) False
      by (subst VarInt_decode_loop.simps) (simp add: bind_def d r return_def e P_def)
  qed
qed

lemma VarInt_roundtrip:
  assumes "0 \<le> v" "v < 2 ^ 31" "in_bounds s (offset s) (VarInt_size v)"
  shows "encode VarInt v s = (Inr (), place (map word_of_int (spec_varint_encode v)) s)"
    and "decode VarInt ((place (map word_of_int (spec_varint_encode v)) s)\<lparr>offset := offset s\<rparr>)
         = (Inr v, place (map word_of_int (spec_varint_encode v)) s)"
proof -
  define bs :: "u8 list" where "bs = map word_of_int (spec_varint_encode v)"
  have l: "length bs = VarInt_size v"
    using assms by (simp add: bs_def length_spec_varint_encode VarInt_size_spec)
  have ib: "in_bounds s (offset s) (length bs)" using assms(3) l by simp
  show "encode VarInt v s = (Inr (), place (map word_of_int (spec_varint_encode v)) s)"
    using VarInt_encode_spec [of v s] assms ib by (simp add: VarInt_def bs_def)
  have h: "holds ((place bs s)\<lparr>offset := offset s\<rparr>) bs" using holds_place [OF ib] .
  have "VarInt_decode_loop 0 (7 * int 0) 0 ((place bs s)\<lparr>offset := offset s\<rparr>)
        = (Inr (0 + v * 2 ^ (7 * 0)), skip (length (spec_varint_encode v)) ((place bs s)\<lparr>offset := offset s\<rparr>))"
    using assms h by (intro VarInt_decode_loop_spec) (simp_all add: bs_def)
  then show "decode VarInt ((place (map word_of_int (spec_varint_encode v)) s)\<lparr>offset := offset s\<rparr>)
         = (Inr v, place (map word_of_int (spec_varint_encode v)) s)"
    using place_rewind_skip [of bs s] by (simp add: VarInt_def VarInt_decode_def bs_def)
qed

section \<open>The fixed-width codecs\<close>

lemma one_many: "one = many 1"
  by (rule ext) (simp add: one_def many_def)

lemma set_codec:
  "in_bounds s (offset s) n \<Longrightarrow>
   bind (many (int n)) (\<lambda>off. set_bytes off (be_bytes n v)) s = (Inr (), place (be_bytes n v) s)"
  using many_encode [of s "be_bytes n v"] by simp

lemma get_codec:
  "in_bounds s (offset s) n \<Longrightarrow>
   bind (many (int n)) (\<lambda>off. bind (get_bytes off n) (\<lambda>bs. return (f (be_value bs))))
     ((place (be_bytes n v) s)\<lparr>offset := offset s\<rparr>)
   = (Inr (f (v mod 2 ^ (8 * n))), place (be_bytes n v) s)"
proof -
  assume ib: "in_bounds s (offset s) n"
  have h: "holds ((place (be_bytes n v) s)\<lparr>offset := offset s\<rparr>) (be_bytes n v)"
    using holds_place [of s "be_bytes n v"] ib by simp
  show ?thesis
    using many_decode [OF h, of n "\<lambda>bs. f (be_value bs)"] place_rewind_skip [of "be_bytes n v" s]
    by (simp add: be_value_be_bytes)
qed

lemma signed_wrap:
  fixes v H :: int
  assumes "- H \<le> v" "v < H"
  shows "(v mod (2 * H) + H) mod (2 * H) - H = v"
proof -
  have "(v mod (2 * H) + H) mod (2 * H) = (v + H) mod (2 * H)" by (simp add: mod_add_left_eq)
  also have "\<dots> = v + H" using assms by (intro mod_pos_pos_trivial) simp_all
  finally show ?thesis by simp
qed

lemma sint8: "- 128 \<le> v \<Longrightarrow> v \<le> 127 \<Longrightarrow> sint (word_of_int (v mod 2 ^ (8 * 1)) :: 8 word) = v"
  using signed_wrap [of 128 v] by (simp add: int_word_sint)

lemma sint16: "- 32768 \<le> v \<Longrightarrow> v \<le> 32767 \<Longrightarrow> sint (word_of_int (v mod 2 ^ (8 * 2)) :: 16 word) = v"
  using signed_wrap [of 32768 v] by (simp add: int_word_sint)

lemma sint32:
  "- 2147483648 \<le> v \<Longrightarrow> v \<le> 2147483647 \<Longrightarrow> sint (word_of_int (v mod 2 ^ (8 * 4)) :: 32 word) = v"
  using signed_wrap [of 2147483648 v] by (simp add: int_word_sint)

lemma Int8_roundtrip:
  assumes "- 128 \<le> v" "v \<le> 127" "in_bounds s (offset s) 1"
  shows "encode Int8 v s = (Inr (), place (be_bytes 1 v) s)"
    and "decode Int8 ((place (be_bytes 1 v) s)\<lparr>offset := offset s\<rparr>) = (Inr v, place (be_bytes 1 v) s)"
proof -
  show "encode Int8 v s = (Inr (), place (be_bytes 1 v) s)"
    using set_codec [OF assms(3), of v] by (simp add: Int8_def setInt8_def one_many)
  show "decode Int8 ((place (be_bytes 1 v) s)\<lparr>offset := offset s\<rparr>) = (Inr v, place (be_bytes 1 v) s)"
    using get_codec [OF assms(3), of "\<lambda>x. sint (word_of_int x :: 8 word)" v] sint8 [OF assms(1,2)]
    by (simp add: Int8_def getInt8_def one_many)
qed

lemma Int16_roundtrip:
  assumes "- 32768 \<le> v" "v \<le> 32767" "in_bounds s (offset s) 2"
  shows "encode Int16 v s = (Inr (), place (be_bytes 2 v) s)"
    and "decode Int16 ((place (be_bytes 2 v) s)\<lparr>offset := offset s\<rparr>) = (Inr v, place (be_bytes 2 v) s)"
proof -
  show "encode Int16 v s = (Inr (), place (be_bytes 2 v) s)"
    using set_codec [OF assms(3), of v] by (simp add: Int16_def setInt16_def)
  show "decode Int16 ((place (be_bytes 2 v) s)\<lparr>offset := offset s\<rparr>) = (Inr v, place (be_bytes 2 v) s)"
    using get_codec [OF assms(3), of "\<lambda>x. sint (word_of_int x :: 16 word)" v] sint16 [OF assms(1,2)]
    by (simp add: Int16_def getInt16_def)
qed

lemma Int32_roundtrip:
  assumes "- 2147483648 \<le> v" "v \<le> 2147483647" "in_bounds s (offset s) 4"
  shows "encode Int32 v s = (Inr (), place (be_bytes 4 v) s)"
    and "decode Int32 ((place (be_bytes 4 v) s)\<lparr>offset := offset s\<rparr>) = (Inr v, place (be_bytes 4 v) s)"
proof -
  show "encode Int32 v s = (Inr (), place (be_bytes 4 v) s)"
    using set_codec [OF assms(3), of v] by (simp add: Int32_def setInt32_def)
  show "decode Int32 ((place (be_bytes 4 v) s)\<lparr>offset := offset s\<rparr>) = (Inr v, place (be_bytes 4 v) s)"
    using get_codec [OF assms(3), of "\<lambda>x. sint (word_of_int x :: 32 word)" v] sint32 [OF assms(1,2)]
    by (simp add: Int32_def getInt32_def)
qed

lemma UInt8_roundtrip:
  assumes "0 \<le> v" "v \<le> 255" "in_bounds s (offset s) 1"
  shows "encode UInt8 v s = (Inr (), place (be_bytes 1 v) s)"
    and "decode UInt8 ((place (be_bytes 1 v) s)\<lparr>offset := offset s\<rparr>) = (Inr v, place (be_bytes 1 v) s)"
proof -
  show "encode UInt8 v s = (Inr (), place (be_bytes 1 v) s)"
    using set_codec [OF assms(3), of v] by (simp add: UInt8_def setUint8_def one_many)
  show "decode UInt8 ((place (be_bytes 1 v) s)\<lparr>offset := offset s\<rparr>) = (Inr v, place (be_bytes 1 v) s)"
    using get_codec [OF assms(3), of "\<lambda>x. x" v] assms(1,2)
    by (simp add: UInt8_def getUint8_def one_many)
qed

lemma UInt16_roundtrip:
  assumes "0 \<le> v" "v \<le> 65535" "in_bounds s (offset s) 2"
  shows "encode UInt16 v s = (Inr (), place (be_bytes 2 v) s)"
    and "decode UInt16 ((place (be_bytes 2 v) s)\<lparr>offset := offset s\<rparr>) = (Inr v, place (be_bytes 2 v) s)"
proof -
  show "encode UInt16 v s = (Inr (), place (be_bytes 2 v) s)"
    using set_codec [OF assms(3), of v] by (simp add: UInt16_def setUint16_def)
  show "decode UInt16 ((place (be_bytes 2 v) s)\<lparr>offset := offset s\<rparr>) = (Inr v, place (be_bytes 2 v) s)"
    using get_codec [OF assms(3), of "\<lambda>x. x" v] assms(1,2)
    by (simp add: UInt16_def getUint16_def)
qed

lemma UInt32_roundtrip:
  assumes "0 \<le> v" "v \<le> 4294967295" "in_bounds s (offset s) 4"
  shows "encode UInt32 v s = (Inr (), place (be_bytes 4 v) s)"
    and "decode UInt32 ((place (be_bytes 4 v) s)\<lparr>offset := offset s\<rparr>) = (Inr v, place (be_bytes 4 v) s)"
proof -
  show "encode UInt32 v s = (Inr (), place (be_bytes 4 v) s)"
    using set_codec [OF assms(3), of v] by (simp add: UInt32_def setUint32_def)
  show "decode UInt32 ((place (be_bytes 4 v) s)\<lparr>offset := offset s\<rparr>) = (Inr v, place (be_bytes 4 v) s)"
    using get_codec [OF assms(3), of "\<lambda>x. x" v] assms(1,2)
    by (simp add: UInt32_def getUint32_def)
qed

lemma Float64_roundtrip:
  assumes "in_bounds s (offset s) 8"
  shows "encode Float64 v s = (Inr (), place (be_bytes 8 (uint v)) s)"
    and "decode Float64 ((place (be_bytes 8 (uint v)) s)\<lparr>offset := offset s\<rparr>)
         = (Inr v, place (be_bytes 8 (uint v)) s)"
proof -
  show "encode Float64 v s = (Inr (), place (be_bytes 8 (uint v)) s)"
    using set_codec [OF assms, of "uint v"] by (simp add: Float64_def setFloat64_def)
  have "uint v mod 2 ^ (8 * 8) = uint v"
    using uint_bounded [of v] by (intro mod_pos_pos_trivial) simp_all
  then show "decode Float64 ((place (be_bytes 8 (uint v)) s)\<lparr>offset := offset s\<rparr>)
         = (Inr v, place (be_bytes 8 (uint v)) s)"
    using get_codec [OF assms, of "\<lambda>x. (word_of_int x :: 64 word)" "uint v"]
    by (simp add: Float64_def getFloat64_def)
qed

lemma Bool_roundtrip:
  assumes "in_bounds s (offset s) 1"
  shows "encode Bool v s = (Inr (), place [if v then 1 else 0] s)"
    and "decode Bool ((place [if v then 1 else 0] s)\<lparr>offset := offset s\<rparr>)
         = (Inr v, place [if v then 1 else 0] s)"
proof -
  have b: "be_bytes 1 (if v then 1 else 0) = [if v then 1 else 0]" by simp
  show "encode Bool v s = (Inr (), place [if v then 1 else 0] s)"
    using UInt8_roundtrip(1) [OF _ _ assms, of "if v then 1 else 0"] b by (simp add: Bool_def)
  show "decode Bool ((place [if v then 1 else 0] s)\<lparr>offset := offset s\<rparr>)
         = (Inr v, place [if v then 1 else 0] s)"
    using UInt8_roundtrip(2) [OF _ _ assms, of "if v then 1 else 0"] b
    by (cases v) (simp_all add: Bool_def bind_def return_def)
qed

section \<open>ByteArray and Str\<close>

lemma ByteArray_encode_loop_place:
  "in_bounds s (offset s) (length v) \<Longrightarrow> ByteArray_encode_loop v s = (Inr (), place v s)"
proof (induction v arbitrary: s)
  case Nil
  then show ?case by (simp add: return_def place_def in_bounds_def)
next
  case (Cons elm rest)
  have ib: "in_bounds s (offset s) (length [elm] + length rest)" using Cons.prems by simp
  have ib1: "in_bounds s (offset s) 1"
    using in_bounds_less [of s "offset s" 1 "length rest"] ib by simp
  have first: "encode UInt8 (uint elm) s = (Inr (), place [elm] s)"
    using UInt8_encode [OF ib1, of "uint elm"] by simp
  have "ByteArray_encode_loop (elm # rest) s = ByteArray_encode_loop rest (place [elm] s)"
    by (simp add: bind_def first)
  also have "\<dots> = (Inr (), place rest (place [elm] s))"
    using Cons.IH [OF in_bounds_place_rest [OF ib]] .
  also have "place rest (place [elm] s) = place ([elm] @ rest) s"
    using place_app [OF ib] by simp
  finally show ?case by simp
qed

lemma Str_encode_loop_place:
  "in_bounds s (offset s) (length v - i) \<Longrightarrow>
   Str_encode_loop v i s = (Inr (), place (map ucast (drop i v)) s)"
proof (induction v i arbitrary: s rule: Str_encode_loop.induct)
  case (1 v i)
  show ?case
  proof (cases "i < length v")
    case True
    define b :: u8 where "b = ucast (v ! i)"
    define rest :: "u8 list" where "rest = map ucast (drop (i + 1) v)"
    have d: "map ucast (drop i v) = [b] @ rest"
      using True by (simp add: b_def rest_def flip: Cons_nth_drop_Suc)
    have "Suc (length v - Suc i) = length v - i" using True by simp
    then have ib: "in_bounds s (offset s) (length [b] + length rest)"
      using "1.prems" by (simp add: rest_def)
    have ib1: "in_bounds s (offset s) 1"
      using in_bounds_less [of s "offset s" 1 "length rest"] ib by simp
    have ib2: "in_bounds (place [b] s) (offset (place [b] s)) (length v - (i + 1))"
      using in_bounds_place_rest [OF ib] by (simp add: rest_def)
    have first: "encode UInt8 (uint (v ! i)) s = (Inr (), place [b] s)"
      using UInt8_encode [OF ib1, of "uint (v ! i)"] by (simp add: b_def)
    have "Str_encode_loop v i s = Str_encode_loop v (i + 1) (place [b] s)"
      using True by (subst Str_encode_loop.simps) (simp add: bind_def first)
    also have "\<dots> = (Inr (), place rest (place [b] s))"
      using "1.IH" [OF True ib2] by (simp add: rest_def)
    also have "place rest (place [b] s) = place ([b] @ rest) s"
      using place_app [OF ib] by simp
    finally show ?thesis by (simp only: d)
  next
    case False
    then show ?thesis
      by (subst Str_encode_loop.simps) (simp add: return_def place_def)
  qed
qed


lemma ucast_byte_back: "c \<le> 255 \<Longrightarrow> ucast (ucast c :: u8) = (c :: 16 word)"
proof -
  assume "c \<le> 255"
  then have le: "uint c \<le> 255" by (simp add: word_le_def)
  have "uint (take_bit 8 c) = take_bit 8 (uint c)" by (rule unsigned_take_bit_eq)
  also have "\<dots> = uint c" using le by (intro take_bit_int_eq_self) simp_all
  finally have tb: "take_bit 8 c = c" by (rule word_uint_eqI)
  show ?thesis
  proof (rule bit_word_eqI)
    fix n
    have "bit (take_bit 8 c) n \<longleftrightarrow> n < 8 \<and> bit c n" by (simp add: bit_take_bit_iff)
    then have "bit c n \<Longrightarrow> n < 8" by (simp add: tb)
    then show "bit (ucast (ucast c :: u8) :: 16 word) n \<longleftrightarrow> bit c n"
      by (auto simp: bit_ucast_iff)
  qed
qed

lemma fromCharCode_bytes:
  "fromCharCode (map ucast v) = map (\<lambda>c. ucast (ucast c :: u8)) v"
  by (simp add: fromCharCode_def)

lemma VarInt_decode_holds:
  assumes "0 \<le> n" "n < 2 ^ 31" "holds s (map word_of_int (spec_varint_encode n))"
  shows "decode VarInt s = (Inr n, skip (length (spec_varint_encode n)) s)"
  using VarInt_decode_loop_spec [of n 0 0 s] assms
  by (simp add: VarInt_def VarInt_decode_def)

lemma take_drop_within:
  "k + n \<le> length xs \<Longrightarrow> take n (drop k (xs @ ys)) = take n (drop k xs)"
  by simp

lemma ByteArray_decode_holds:
  assumes "int (length payload) < 2 ^ 31"
    and "holds s (map word_of_int (spec_varint_encode (int (length payload))) @ payload)"
    and "before s = []"
  shows "decode ByteArray s
         = (Inr payload, skip (length (spec_varint_encode (int (length payload))) + length payload) s)"
proof -
  define n where "n = int (length payload)"
  define pre :: "u8 list" where "pre = map word_of_int (spec_varint_encode n)"
  have h1: "holds s pre" and h2: "holds (skip (length pre) s) payload"
    using assms(2) holds_app [of s pre payload] by (simp_all add: pre_def n_def)
  have d: "decode VarInt s = (Inr n, skip (length pre) s)"
    using VarInt_decode_holds [of n s] assms(1) h1 by (simp add: n_def pre_def)
  have ib: "in_bounds (skip (length pre) s) (offset s + int (length pre)) (length payload)"
    using h2 by (simp add: holds_def)
  have tk: "take (length payload) (drop (nat (offset s + int (length pre))) (view s)) = payload"
    using h2 by (simp add: holds_def)
  have le: "nat (offset s + int (length pre)) + length payload \<le> length (view s)"
    using ib by (simp add: in_bounds_def skip_def) linarith
  have "take (length payload) (drop (nat (offset s + int (length pre))) (view s @ after s)) = payload"
    using take_drop_within [OF le] tk by simp
  then have "new_Uint8Array (offset s + int (length pre)) n (skip (length payload) (skip (length pre) s))
        = (Inr payload, skip (length payload) (skip (length pre) s))"
    using ib assms(3) by (simp add: new_Uint8Array_def buffer_def in_bounds_def n_def skip_def)
  then show ?thesis
    by (simp add: ByteArray_def bind_def d many_def skip_def n_def pre_def add.assoc)
qed

lemma Str_encode_place:
  assumes "int (length v) < 2 ^ 31"
    and "in_bounds s (offset s) (size_at (size_of (Str e)) v)"
  shows "encode (Str e) v s
         = (Inr (), place (map word_of_int (spec_varint_encode (int (length v))) @ map ucast v) s)"
proof -
  define pre :: "u8 list" where "pre = map word_of_int (spec_varint_encode (int (length v)))"
  define chars :: "u8 list" where "chars = map ucast v"
  have lp: "length pre = VarIntSize (int (length v))"
    using assms(1) by (simp add: pre_def VarIntSize_def length_spec_varint_encode VarInt_size_spec)
  have ib: "in_bounds s (offset s) (length pre + length chars)"
    using assms(2) lp by (simp add: Str_def size_at_def chars_def)
  have ib1: "in_bounds s (offset s) (length (spec_varint_encode (int (length v))))"
    using in_bounds_less [OF ib] by (simp add: pre_def)
  have e1: "encode VarInt (int (length v)) s = (Inr (), place pre s)"
    using VarInt_encode_spec [OF _ assms(1) ib1] by (simp add: VarInt_def pre_def)
  have e2: "Str_encode_loop v 0 (place pre s) = (Inr (), place chars (place pre s))"
    using Str_encode_loop_place [of "place pre s" v 0] in_bounds_place_rest [OF ib]
    by (simp add: chars_def)
  have "encode (Str e) v s = (Inr (), place chars (place pre s))"
    by (simp add: Str_def bind_def e1 e2)
  then show ?thesis using place_app [OF ib] by (simp add: pre_def chars_def)
qed

lemma fromCharCode_apply_accepts:
  "int (length arr) \<le> 65535 + int e \<Longrightarrow> fromCharCode_apply e arr = return (fromCharCode arr)"
  by (simp add: fromCharCode_apply_def)

lemma Str_roundtrip_within_limit:
  assumes "int (length v) < 2 ^ 31"
    and "int (length v) \<le> 65535 + int e"
    and "before s = []"
    and "in_bounds s (offset s) (size_at (size_of (Str e)) v)"
  shows "\<exists>s'. size_at (size_of (Str e)) v = VarIntSize (int (length v)) + length v
          \<and> encode (Str e) v s = (Inr (), s')
          \<and> s' = place (map word_of_int (spec_varint_encode (int (length v))) @ map ucast v) s
          \<and> offset s' = offset s + int (size_at (size_of (Str e)) v)
          \<and> decode (Str e) (s'\<lparr>offset := offset s\<rparr>) = (Inr (map (\<lambda>c. ucast (ucast c :: u8)) v), s')
          \<and> ((\<forall>c \<in> set v. c \<le> 255) \<longrightarrow> decode (Str e) (s'\<lparr>offset := offset s\<rparr>) = (Inr v, s'))"
proof -
  define pre :: "u8 list" where "pre = map word_of_int (spec_varint_encode (int (length v)))"
  define chars :: "u8 list" where "chars = map ucast v"
  define s' where "s' = place (pre @ chars) s"
  have sz: "size_at (size_of (Str e)) v = VarIntSize (int (length v)) + length v"
    by (simp add: Str_def size_at_def)
  have lp: "length pre = VarIntSize (int (length v))"
    using assms(1) by (simp add: pre_def VarIntSize_def length_spec_varint_encode VarInt_size_spec)
  have ib: "in_bounds s (offset s) (length (pre @ chars))"
    using assms(4) lp by (simp add: sz chars_def)
  have enc: "encode (Str e) v s = (Inr (), s')"
    using Str_encode_place [OF assms(1,4)] by (simp add: s'_def pre_def chars_def)
  have off: "offset s' = offset s + int (size_at (size_of (Str e)) v)"
    using lp by (simp add: s'_def sz chars_def)
  have h: "holds (s'\<lparr>offset := offset s\<rparr>) (pre @ chars)"
    unfolding s'_def using holds_place [OF ib] .
  have bf: "before (s'\<lparr>offset := offset s\<rparr>) = []"
    using assms(3) by (simp add: s'_def place_def)
  have "decode ByteArray (s'\<lparr>offset := offset s\<rparr>)
        = (Inr chars, skip (length (spec_varint_encode (int (length chars))) + length chars)
                        (s'\<lparr>offset := offset s\<rparr>))"
    using ByteArray_decode_holds [of chars "s'\<lparr>offset := offset s\<rparr>"] assms(1) h bf
    by (simp add: chars_def pre_def)
  moreover have "skip (length (spec_varint_encode (int (length chars))) + length chars)
                  (s'\<lparr>offset := offset s\<rparr>) = s'"
    using place_rewind_skip [of "pre @ chars" s] by (simp add: s'_def pre_def chars_def)
  moreover have "fromCharCode_apply e chars = return (fromCharCode chars)"
    using assms(2) by (simp add: fromCharCode_apply_accepts chars_def)
  ultimately have dec: "decode (Str e) (s'\<lparr>offset := offset s\<rparr>)
        = (Inr (map (\<lambda>c. ucast (ucast c :: u8)) v), s')"
    by (simp add: Str_def bind_def return_def fromCharCode_bytes chars_def)
  have "map (\<lambda>c. ucast (ucast c :: u8)) v = v" if "\<forall>c \<in> set v. c \<le> 255"
    using that by (simp add: ucast_byte_back map_idI)
  with dec have "(\<forall>c \<in> set v. c \<le> 255) \<longrightarrow> decode (Str e) (s'\<lparr>offset := offset s\<rparr>) = (Inr v, s')"
    by simp
  with sz enc off dec show ?thesis
    unfolding s'_def pre_def chars_def by blast
qed

lemma Str_decode_beyond_limit:
  assumes "int (length payload) < 2 ^ 31"
    and "65535 + int e < int (length payload)"
    and "before s = []"
    and "holds s (map word_of_int (spec_varint_encode (int (length payload))) @ payload)"
  shows "decode (Str e) s
         = (Inl RangeError,
            skip (length (spec_varint_encode (int (length payload))) + length payload) s)"
  using ByteArray_decode_holds [OF assms(1,4,3)] assms(2)
  by (simp add: Str_def bind_def fromCharCode_apply_def throw_def)

section \<open>The ten-byte cap of VarInt.decode\<close>

lemma fold_group_pair:
  "fold_group (val, bo) byte = (js_or val (js_shl (js_and byte 0x7f) bo), bo + 7)"
  by (simp add: fold_group_def)

lemma UInt8_decode_store: "snd (decode UInt8 s) = skip 1 s"
  by (simp add: UInt8_def getUint8_def bind_def one_def get_bytes_def return_def skip_def)

lemma UInt8_decode_error: "fst (decode UInt8 s) = Inl e \<Longrightarrow> e = RangeError"
  by (simp add: UInt8_def getUint8_def bind_def one_def get_bytes_def return_def split: if_splits)

lemma VarInt_decode_loop_store:
  "i \<le> 10 \<Longrightarrow>
   view (snd (VarInt_decode_loop val bo i s)) = view s \<and>
   offset s \<le> offset (snd (VarInt_decode_loop val bo i s)) \<and>
   offset (snd (VarInt_decode_loop val bo i s)) \<le> offset s + int (10 - i)"
proof (induction val bo i arbitrary: s rule: VarInt_decode_loop.induct)
  case (1 val bo i)
  show ?case
  proof (cases "i < 10")
    case False
    then show ?thesis by (subst (1 2 3) VarInt_decode_loop.simps) (simp add: return_def)
  next
    case True
    obtain r where d: "decode UInt8 s = (r, skip 1 s)"
      using UInt8_decode_store [of s] by (cases "decode UInt8 s") simp
    show ?thesis
    proof (cases r)
      case (Inl e)
      then show ?thesis
        using True by (subst (1 2 3) VarInt_decode_loop.simps) (simp add: bind_def d)
    next
      case (Inr byte)
      show ?thesis
      proof (cases "byte < 0x80")
        case final: True
        then show ?thesis
          using True Inr by (subst (1 2 3) VarInt_decode_loop.simps) (simp add: bind_def d return_def)
      next
        case cont: False
        have ih: "view (snd (VarInt_decode_loop (js_or val (js_shl (js_and byte 0x7f) bo)) (bo + 7) (i + 1) (skip 1 s))) = view (skip 1 s) \<and>
          offset (skip 1 s) \<le> offset (snd (VarInt_decode_loop (js_or val (js_shl (js_and byte 0x7f) bo)) (bo + 7) (i + 1) (skip 1 s))) \<and>
          offset (snd (VarInt_decode_loop (js_or val (js_shl (js_and byte 0x7f) bo)) (bo + 7) (i + 1) (skip 1 s)))
            \<le> offset (skip 1 s) + int (10 - (i + 1))"
          using "1.IH" [OF True cont, of "skip 1 s"] True by simp
        have u: "VarInt_decode_loop val bo i s
                 = VarInt_decode_loop (js_or val (js_shl (js_and byte 0x7f) bo)) (bo + 7) (i + 1) (skip 1 s)"
          using True Inr cont by (subst VarInt_decode_loop.simps) (simp add: bind_def d)
        show ?thesis using ih True unfolding u by simp
      qed
    qed
  qed
qed

lemma VarInt_decode_loop_returns:
  "holds s bs \<Longrightarrow> i \<le> 10 \<Longrightarrow> 10 - i \<le> length bs \<or> (\<exists>b \<in> set bs. b < 0x80) \<Longrightarrow>
   \<exists>v n. VarInt_decode_loop val bo i s = (Inr v, skip n s) \<and> n \<le> 10 - i \<and> (i < 10 \<longrightarrow> 1 \<le> n)"
proof (induction bs arbitrary: val bo i s)
  case Nil
  then have "i = 10" by simp
  then have "VarInt_decode_loop val bo i s = (Inr val, skip 0 s)"
    by (subst VarInt_decode_loop.simps) (simp add: return_def skip_def)
  then show ?case using \<open>i = 10\<close> by blast
next
  case (Cons b rest)
  show ?case
  proof (cases "i < 10")
    case False
    then have "VarInt_decode_loop val bo i s = (Inr val, skip 0 s)"
      by (subst VarInt_decode_loop.simps) (simp add: return_def skip_def)
    then show ?thesis using False by blast
  next
    case True
    have d: "decode UInt8 s = (Inr (uint b), skip 1 s)" and hr: "holds (skip 1 s) rest"
      using holds_Cons_byte [OF Cons.prems(1)] by simp_all
    show ?thesis
    proof (cases "uint b < 0x80")
      case final: True
      have "\<exists>v. VarInt_decode_loop val bo i s = (Inr v, skip 1 s)"
        using True final by (subst VarInt_decode_loop.simps) (simp add: bind_def d return_def)
      then show ?thesis using True by fastforce
    next
      case cont: False
      then have nb: "\<not> b < 0x80" by (simp add: word_less_def)
      have c: "10 - (i + 1) \<le> length rest \<or> (\<exists>b \<in> set rest. b < 0x80)"
        using Cons.prems(3) nb by auto
      obtain v n where r: "VarInt_decode_loop (js_or val (js_shl (js_and (uint b) 0x7f) bo)) (bo + 7) (i + 1) (skip 1 s)
              = (Inr v, skip n (skip 1 s))" and n: "n \<le> 10 - (i + 1)"
        using Cons.IH [OF hr _ c, of "js_or val (js_shl (js_and (uint b) 0x7f) bo)" "bo + 7"] True
        by auto
      have "VarInt_decode_loop val bo i s = (Inr v, skip (1 + n) s)"
        using True cont r by (subst VarInt_decode_loop.simps) (simp add: bind_def d skip_skip)
      then show ?thesis using n True by fastforce
    qed
  qed
qed

lemma VarInt_decode_loop_continue:
  "holds s cs \<Longrightarrow> \<forall>c \<in> set cs. 0x80 \<le> c \<Longrightarrow> i + length cs \<le> 10 \<Longrightarrow>
   VarInt_decode_loop val bo i s
   = VarInt_decode_loop (fst (foldl fold_group (val, bo) (map uint cs)))
       (snd (foldl fold_group (val, bo) (map uint cs))) (i + length cs) (skip (length cs) s)"
proof (induction cs arbitrary: val bo i s)
  case Nil
  then show ?case by (simp add: skip_def)
next
  case (Cons c rest)
  have d: "decode UInt8 s = (Inr (uint c), skip 1 s)" and hr: "holds (skip 1 s) rest"
    using holds_Cons_byte [OF Cons.prems(1)] by simp_all
  have cont: "\<not> uint c < 0x80" using Cons.prems(2) by (simp add: word_le_def)
  have i: "i < 10" using Cons.prems(3) by simp
  have "VarInt_decode_loop val bo i s
        = VarInt_decode_loop (js_or val (js_shl (js_and (uint c) 0x7f) bo)) (bo + 7) (i + 1) (skip 1 s)"
    using i cont by (subst VarInt_decode_loop.simps) (simp add: bind_def d)
  also have "\<dots> = VarInt_decode_loop
        (fst (foldl fold_group (js_or val (js_shl (js_and (uint c) 0x7f) bo), bo + 7) (map uint rest)))
        (snd (foldl fold_group (js_or val (js_shl (js_and (uint c) 0x7f) bo), bo + 7) (map uint rest)))
        (i + 1 + length rest) (skip (length rest) (skip 1 s))"
    using Cons.IH [OF hr, of "i + 1"] Cons.prems(2,3) by simp
  finally show ?case by (simp add: fold_group_pair skip_skip)
qed

lemma VarInt_decode_loop_error:
  "fst (VarInt_decode_loop val bo i s) = Inl e \<Longrightarrow> e = RangeError"
proof (induction val bo i arbitrary: s rule: VarInt_decode_loop.induct)
  case (1 val bo i)
  show ?case
  proof (cases "i < 10")
    case False
    then show ?thesis using "1.prems" by (subst (asm) VarInt_decode_loop.simps) (simp add: return_def)
  next
    case True
    obtain r where d: "decode UInt8 s = (r, skip 1 s)"
      using UInt8_decode_store [of s] by (cases "decode UInt8 s") simp
    show ?thesis
    proof (cases r)
      case (Inl e')
      then have "e' = RangeError" using UInt8_decode_error [of s e'] d by simp
      moreover have "fst (VarInt_decode_loop val bo i s) = Inl e'"
        using True Inl by (subst VarInt_decode_loop.simps) (simp add: bind_def d)
      ultimately show ?thesis using "1.prems" by simp
    next
      case (Inr byte)
      show ?thesis
      proof (cases "byte < 0x80")
        case final: True
        then show ?thesis
          using True Inr "1.prems"
          by (subst (asm) VarInt_decode_loop.simps) (simp add: bind_def d return_def split: if_splits)
      next
        case cont: False
        have u: "VarInt_decode_loop val bo i s
                 = VarInt_decode_loop (js_or val (js_shl (js_and byte 0x7f) bo)) (bo + 7) (i + 1) (skip 1 s)"
          using True Inr cont by (subst VarInt_decode_loop.simps) (simp add: bind_def d)
        show ?thesis using "1.IH" [OF True cont, of "skip 1 s"] "1.prems" unfolding u by simp
      qed
    qed
  qed
qed

section \<open>Struct definitions\<close>




lemma encode_loop_concat:
  "\<forall>k \<in> set keys. \<exists>type. map_of layout k = Some type \<and> writes_exactly type (get_prop v k) (B k) \<Longrightarrow>
   in_bounds s (offset s) (length (concat (map B keys))) \<Longrightarrow>
   encode_loop (map (\<lambda>key. (key, map_of layout key)) keys) v s
   = (Inr (), place (concat (map B keys)) s)"
proof (induction keys arbitrary: s)
  case Nil
  then show ?case by (simp add: return_def place_def in_bounds_def)
next
  case (Cons k keys)
  obtain type where t: "map_of layout k = Some type" and w: "writes_exactly type (get_prop v k) (B k)"
    using Cons.prems(1) by auto
  have ib: "in_bounds s (offset s) (length (B k) + length (concat (map B keys)))"
    using Cons.prems(2) by simp
  have first: "encode type (get_prop v k) s = (Inr (), place (B k) s)"
    using w in_bounds_less [OF ib] by (simp add: writes_exactly_def)
  have "encode_loop (map (\<lambda>key. (key, map_of layout key)) (k # keys)) v s
        = encode_loop (map (\<lambda>key. (key, map_of layout key)) keys) v (place (B k) s)"
    by (simp add: t bind_def first)
  also have "\<dots> = (Inr (), place (concat (map B keys)) (place (B k) s))"
    using Cons.IH [OF _ in_bounds_place_rest [OF ib]] Cons.prems(1) by simp
  also have "place (concat (map B keys)) (place (B k) s) = place (B k @ concat (map B keys)) s"
    using place_app [OF ib] by simp
  finally show ?case by simp
qed










section \<open>create on codecs that keep the size rule\<close>

lemma VarInt_size_loop_add: "VarInt_size_loop v sz = sz + VarInt_size_loop v 0"
proof (induction v arbitrary: sz rule: VarInt_encode.induct)
  case (1 v)
  show ?case
  proof (cases "v \<ge> 0x80")
    case True
    have a: "VarInt_size_loop v sz = VarInt_size_loop (js_shr v 7) (sz + 1)"
      using True by (subst VarInt_size_loop.simps) simp
    have b: "VarInt_size_loop v 0 = VarInt_size_loop (js_shr v 7) 1"
      using True by (subst VarInt_size_loop.simps) simp
    have "VarInt_size_loop (js_shr v 7) (sz + 1) = sz + 1 + VarInt_size_loop (js_shr v 7) 0"
      using "1.IH" [OF True, of "sz + 1"] .
    moreover have "VarInt_size_loop (js_shr v 7) 1 = 1 + VarInt_size_loop (js_shr v 7) 0"
      using "1.IH" [OF True, of 1] .
    ultimately show ?thesis using a b by simp
  next
    case False
    then show ?thesis by (subst (1 2) VarInt_size_loop.simps) simp
  qed
qed

lemma VarInt_size_step: "v \<ge> 0x80 \<Longrightarrow> VarInt_size v = Suc (VarInt_size (js_shr v 7))"
proof -
  assume h: "v \<ge> 0x80"
  have "VarInt_size_loop v 0 = VarInt_size_loop (js_shr v 7) 1"
    using h by (subst VarInt_size_loop.simps) simp
  also have "\<dots> = 1 + VarInt_size_loop (js_shr v 7) 0"
    by (rule VarInt_size_loop_add)
  finally show ?thesis by (simp add: VarInt_size_def)
qed

lemma VarInt_size_final: "\<not> v \<ge> 0x80 \<Longrightarrow> VarInt_size v = 1"
  by (simp add: VarInt_size_def VarInt_size_loop.simps)

lemma VarInt_writes_exactly: "\<exists>bs. writes_exactly VarInt v bs"
proof (induction v rule: VarInt_encode.induct)
  case (1 v)
  have szv: "size_at (size_of VarInt) v = VarInt_size v" by (simp add: VarInt_def size_at_def)
  show ?case
  proof (cases "v \<ge> 0x80")
    case True
    define b :: u8 where "b = word_of_int (js_or v 0x80)"
    obtain rest where r: "writes_exactly VarInt (js_shr v 7) rest"
      using "1.IH" [OF True] by blast
    have l: "length rest = VarInt_size (js_shr v 7)"
      using r by (simp add: writes_exactly_def VarInt_def size_at_def)
    have sz: "VarInt_size v = length ([b] @ rest)"
      using VarInt_size_step [OF True] l by simp
    have "encode VarInt v s = (Inr (), place ([b] @ rest) s)"
      if ib: "in_bounds s (offset s) (length [b] + length rest)" for s
    proof -
      have ib1: "in_bounds s (offset s) 1"
        using in_bounds_less [of s "offset s" 1 "length rest"] ib by simp
      have first: "encode UInt8 (js_or v 0x80) s = (Inr (), place [b] s)"
        using UInt8_encode [OF ib1, of "js_or v 0x80"] by (simp add: b_def)
      have "VarInt_encode (js_shr v 7) (place [b] s) = (Inr (), place rest (place [b] s))"
        using r in_bounds_place_rest [OF ib] by (simp add: writes_exactly_def VarInt_def)
      then have "VarInt_encode v s = (Inr (), place rest (place [b] s))"
        using True by (subst VarInt_encode.simps) (simp add: bind_def first)
      then show ?thesis using place_app [OF ib] by (simp add: VarInt_def)
    qed
    then have "writes_exactly VarInt v ([b] @ rest)"
      using sz szv by (simp add: writes_exactly_def)
    then show ?thesis by blast
  next
    case False
    have "encode VarInt v s = (Inr (), place [word_of_int v] s)" if "in_bounds s (offset s) 1" for s
      using False UInt8_encode [OF that, of v] by (simp add: VarInt_def, subst VarInt_encode.simps) simp
    then have "writes_exactly VarInt v [word_of_int v]"
      using VarInt_size_final [OF False] szv by (simp add: writes_exactly_def)
    then show ?thesis by blast
  qed
qed

lemma computeSize_loop_exact:
  "\<forall>k \<in> set keys. \<exists>type. map_of layout k = Some type \<and> writes_exactly type (get_prop v k) (B k) \<Longrightarrow>
   computeSize_loop (map (\<lambda>key. (key, map_of layout key)) keys) v sz
   = Inr (sz + length (concat (map B keys)))"
proof (induction keys arbitrary: sz)
  case Nil
  show ?case by simp
next
  case (Cons k keys)
  obtain type where t: "map_of layout k = Some type" and w: "writes_exactly type (get_prop v k) (B k)"
    using Cons.prems by auto
  have "size_at (size_of type) (get_prop v k) = length (B k)" using w by (simp add: writes_exactly_def)
  then show ?case
    using Cons.IH Cons.prems
    by (cases "size_of type") (simp_all add: t size_at_def)
qed

lemma create_depends:
  "id_packet d = id_packet d' \<Longrightarrow> computeSize d data = computeSize d' data \<Longrightarrow>
   StructDefinition_encode d data = StructDefinition_encode d' data \<Longrightarrow>
   create d t data = create d' t data"
  unfolding create_def by (simp cong: sum.case_cong)

lemma TestPacket_create_engine: "create (TestPacket e) t testData = create (TestPacket 0) t testData"
proof (rule create_depends)
  show "id_packet (TestPacket e) = id_packet (TestPacket 0)"
    by (simp add: TestPacket_def new_PacketDefinition_def)
next
  show "computeSize (TestPacket e) testData = computeSize (TestPacket 0) testData"
    by (simp add: computeSize_def TestPacket_def new_PacketDefinition_def as_any_def Str_def
        UInt8_def testData_def get_prop_def)
next
  show "StructDefinition_encode (TestPacket e) testData = StructDefinition_encode (TestPacket 0) testData"
    by (simp add: StructDefinition_encode_def TestPacket_def new_PacketDefinition_def as_any_def
        Str_def UInt8_def testData_def get_prop_def)
qed

lemma create_exact:
  assumes "\<forall>k \<in> set keys. \<exists>type. map_of layout k = Some type \<and> writes_exactly type (get_prop data k) (B k)"
  shows "\<exists>pre. writes_exactly VarInt ident pre
           \<and> computeSize (new_PacketDefinition ident layout keys) data = Inr (length (concat (map B keys)))
           \<and> create (new_PacketDefinition ident layout keys) 0 data = (Inr (pre @ concat (map B keys)), 0)"
proof -
  define body where "body = concat (map B keys)"
  obtain pre where w: "writes_exactly VarInt ident pre"
    using VarInt_writes_exactly by blast
  have lp: "VarIntSize ident = length pre"
    using w by (simp add: writes_exactly_def VarInt_def size_at_def VarIntSize_def)
  define s0 where "s0 = \<lparr>view = replicate (length pre + length body) (0 :: u8), offset = 0, before = [], after = []\<rparr>"
  have cs: "computeSize (new_PacketDefinition ident layout keys) data = Inr (length body)"
    using computeSize_loop_exact [OF assms, of 0]
    by (simp add: computeSize_def new_PacketDefinition_def body_def)
  have ib0: "in_bounds s0 (offset s0) (length pre + length body)" by (simp add: s0_def in_bounds_def)
  have e1: "encode VarInt ident s0 = (Inr (), place pre s0)"
    using w in_bounds_less [OF ib0] by (simp add: writes_exactly_def)
  have e2: "StructDefinition_encode (new_PacketDefinition ident layout keys) data (place pre s0)
            = (Inr (), place body (place pre s0))"
    using encode_loop_concat [OF assms, of "place pre s0"] in_bounds_place_rest [OF ib0]
    by (simp add: StructDefinition_encode_def new_PacketDefinition_def body_def)
  have p: "place body (place pre s0) = place (pre @ body) s0"
    using place_app [OF ib0] by simp
  have v: "view (place (pre @ body) s0) = pre @ body"
    by (simp add: place_def s0_def)
  have idp: "id_packet (new_PacketDefinition ident layout keys) = ident"
    by (simp add: new_PacketDefinition_def)
  have s0': "\<lparr>view = replicate (VarIntSize ident + length body) (0 :: u8), offset = 0, before = [], after = []\<rparr> = s0"
    by (simp add: s0_def lp)
  have "create (new_PacketDefinition ident layout keys) 0 data = (Inr (pre @ body), 0)"
    unfolding create_def cs idp
    by (simp add: s0' bind_def e1 e2 reset_def p v)
  then show ?thesis using w cs by (auto simp: body_def)
qed

section \<open>Inputs outside the ranges above\<close>

lemma Str_truncates_code_unit:
  "encode_alone (Str e) [0x0141] = (Inr (), \<lparr>view = [0x01, 0x41], offset = 2, before = [], after = []\<rparr>) \<and>
   decode (Str e) \<lparr>view = [0x01, 0x41], offset = 0, before = [], after = []\<rparr>
     = (Inr [0x0041], \<lparr>view = [0x01, 0x41], offset = 2, before = [], after = []\<rparr>)"
proof
  have "encode_alone (Str 0) [0x0141] = (Inr (), \<lparr>view = [0x01, 0x41], offset = 2, before = [], after = []\<rparr>)"
    by code_simp
  then show "encode_alone (Str e) [0x0141]
             = (Inr (), \<lparr>view = [0x01, 0x41], offset = 2, before = [], after = []\<rparr>)"
    by (simp add: encode_alone_def Str_def size_at_def)
next
  have b: "decode ByteArray \<lparr>view = [0x01, 0x41], offset = 0, before = [], after = []\<rparr>
           = (Inr [0x41], \<lparr>view = [0x01, 0x41], offset = 2, before = [], after = []\<rparr>)"
    by code_simp
  have f: "fromCharCode [0x41] = [0x0041]" by code_simp
  show "decode (Str e) \<lparr>view = [0x01, 0x41], offset = 0, before = [], after = []\<rparr>
        = (Inr [0x0041], \<lparr>view = [0x01, 0x41], offset = 2, before = [], after = []\<rparr>)"
    by (simp add: Str_def bind_def b fromCharCode_apply_accepts return_def f)
qed

lemma decode_drops_proto_field:
  "StructDefinition_decode
     (new_StructDefinition [(''__proto__'', as_any JNumber the_number UInt8)] [''__proto__''])
     \<lparr>view = [0x05], offset = 0, before = [], after = []\<rparr>
   = (Inr Map.empty, \<lparr>view = [0x05], offset = 1, before = [], after = []\<rparr>)"
proof -
  have d: "decode UInt8 \<lparr>view = [0x05], offset = 0, before = [], after = []\<rparr>
           = (Inr 5, \<lparr>view = [0x05], offset = 1, before = [], after = []\<rparr>)"
    by code_simp
  show ?thesis
    by (simp add: StructDefinition_decode_def new_StructDefinition_def as_any_def bind_def d
        return_def set_prop_def)
qed

lemma VarInt_uint32_max_not_decodable:
  "encode_alone VarInt 4294967295 = (Inr (), \<lparr>view = [0xFF, 0xFF], offset = 2, before = [], after = []\<rparr>) \<and>
   decode VarInt \<lparr>view = [0xFF, 0xFF], offset = 0, before = [], after = []\<rparr> = (Inl RangeError, \<lparr>view = [0xFF, 0xFF], offset = 3, before = [], after = []\<rparr>)"
  by code_simp

section \<open>The claims\<close>

text \<open>
  C1. Claim: for every primitive codec and every value in its declared range, decoding
  the bytes produced by encoding the value yields the value again. The lemmas
  \<open>Int8_roundtrip\<close> to \<open>Bool_roundtrip\<close> above show this for \<open>Int8\<close>, \<open>Int16\<close>, \<open>Int32\<close>,
  \<open>UInt8\<close>, \<open>UInt16\<close>, \<open>UInt32\<close>, \<open>Float64\<close> and \<open>Bool\<close>. \<open>Float32\<close> breaks it: its
  \<open>encode\<close> calls \<open>setFloat64\<close>. For the number 1.0 (pattern \<open>0x3FF0000000000000\<close>),
  encoding into a buffer of the declared 4 bytes throws \<open>RangeError\<close>; in a buffer of 8
  bytes it writes all 8 and advances by 4, and decoding then reads the first 4 bytes as
  a binary32 and returns 1.875 (pattern \<open>0x3FFE000000000000\<close>).
\<close>
theorem Float32_roundtrip_fails:
  "encode_alone Float32 0x3FF0000000000000 = (Inl RangeError, \<lparr>view = [0, 0, 0, 0], offset = 4, before = [], after = []\<rparr>) \<and>
   encode Float32 0x3FF0000000000000 \<lparr>view = [0, 0, 0, 0, 0, 0, 0, 0], offset = 0, before = [], after = []\<rparr>
     = (Inr (), \<lparr>view = [0x3F, 0xF0, 0, 0, 0, 0, 0, 0], offset = 4, before = [], after = []\<rparr>) \<and>
   decode Float32 \<lparr>view = [0x3F, 0xF0, 0, 0, 0, 0, 0, 0], offset = 0, before = [], after = []\<rparr>
     = (Inr 0x3FFE000000000000, \<lparr>view = [0x3F, 0xF0, 0, 0, 0, 0, 0, 0], offset = 4, before = [], after = []\<rparr>)"
  by code_simp

text \<open>
  C2. Claim: for every DataType and value, encoding writes and advances the cursor over
  exactly \<open>size(v)\<close> bytes, and decoding consumes the same number. \<open>Float32\<close> declares
  size 4 and advances by 4, but writes 8 bytes: encoding 0.1 (pattern
  \<open>0x3FB999999999999A\<close>) at offset 0 of a zeroed 12-byte buffer changes bytes 0 to 7.
\<close>
theorem Float32_encode_overruns_size:
  "size_of Float32 = Fixed 4 \<and>
   encode Float32 0x3FB999999999999A \<lparr>view = [0, 0, 0, 0, 0, 0, 0, 0, 0, 0, 0, 0], offset = 0, before = [], after = []\<rparr>
     = (Inr (), \<lparr>view = [0x3F, 0xB9, 0x99, 0x99, 0x99, 0x99, 0x99, 0x9A, 0, 0, 0, 0], offset = 4, before = [], after = []\<rparr>)"
  by code_simp

text \<open>
  C3. Encoding the packet definition with identifier 2 and field order \<open>[name, user]\<close>
  on \<open>{name: "ab", user: 5}\<close> gives exactly \<open>[0x02, 0x02, 0x61, 0x62, 0x05]\<close> and
  leaves the write cursor at 0; a message with these bytes, received with that
  definition registered, decodes to identifier 2 and \<open>{name: "ab", user: 5}\<close> and
  leaves the read cursor at 0. This holds on every engine (every \<open>e\<close>).
\<close>
theorem packet_framing:
  "create (TestPacket e) 0 testData = (Inr [0x02, 0x02, 0x61, 0x62, 0x05], 0) \<and>
   onmessage [2 \<mapsto> TestPacket e] [0x02, 0x02, 0x61, 0x62, 0x05] 0 = (Inr (2, Some testData), 0)"
proof
  have "create (TestPacket 0) 0 testData = (Inr [0x02, 0x02, 0x61, 0x62, 0x05], 0)"
    by code_simp
  moreover have "create (TestPacket e) 0 testData = create (TestPacket 0) 0 testData"
    by (rule TestPacket_create_engine)
  ultimately show "create (TestPacket e) 0 testData = (Inr [0x02, 0x02, 0x61, 0x62, 0x05], 0)"
    by simp
next
  let ?bytes = "[0x02, 0x02, 0x61, 0x62, 0x05] :: u8 list"
  have d1: "decode VarInt \<lparr>view = ?bytes, offset = 0, before = [], after = []\<rparr> = (Inr 2, \<lparr>view = ?bytes, offset = 1, before = [], after = []\<rparr>)"
    by code_simp
  have b: "decode ByteArray \<lparr>view = ?bytes, offset = 1, before = [], after = []\<rparr>
           = (Inr [0x61, 0x62], \<lparr>view = ?bytes, offset = 4, before = [], after = []\<rparr>)"
    by code_simp
  have f: "fromCharCode [0x61, 0x62] = [0x61, 0x62]" by code_simp
  have d2: "decode (Str e) \<lparr>view = ?bytes, offset = 1, before = [], after = []\<rparr>
            = (Inr [0x61, 0x62], \<lparr>view = ?bytes, offset = 4, before = [], after = []\<rparr>)"
    by (simp add: Str_def bind_def b fromCharCode_apply_accepts return_def f)
  have d3: "decode UInt8 \<lparr>view = ?bytes, offset = 4, before = [], after = []\<rparr> = (Inr 5, \<lparr>view = ?bytes, offset = 5, before = [], after = []\<rparr>)"
    by code_simp
  show "onmessage [2 \<mapsto> TestPacket e] ?bytes 0 = (Inr (2, Some testData), 0)"
    by (simp add: onmessage_def TestPacket_def new_PacketDefinition_def StructDefinition_decode_def
        bind_def d1 d2 d3 as_any_def reset_def return_def testData_def set_prop_def)
qed

text \<open>
  C4. Claim: for every non-negative integer \<open>v\<close>, \<open>VarInt.size(v)\<close> is the number of
  right-shifts by 7 bits that bring \<open>v\<close> below \<open>0x80\<close>, plus one, and \<open>VarInt.encode\<close>
  emits \<open>(v & 0x7f) | 0x80\<close> and shifts while \<open>v \<ge> 0x80\<close>, then the remaining value.
  \<open>VarInt_size_spec\<close> and \<open>VarInt_encode_spec\<close> above show this for \<open>0 \<le> v < 2^31\<close>, and
  \<open>VarInt_writes_exactly\<close> shows for every \<open>v\<close> that the bytes emitted are as many as
  \<open>VarInt.size(v)\<close>. At \<open>v = 2^31\<close>, inside the declared range of 0 to
  18446744073709551615, the operator \<open>>>=\<close> makes the value negative after one shift:
  the code computes size 2 and emits \<open>[0x80, 0x00]\<close>, where the rule gives size 5 and
  \<open>[0x80, 0x80, 0x80, 0x80, 0x08]\<close>.
\<close>
theorem VarInt_at_2_31:
  "VarInt_size 2147483648 = 2 \<and> spec_varint_size 2147483648 = 5 \<and>
   encode_alone VarInt 2147483648 = (Inr (), \<lparr>view = [0x80, 0x00], offset = 2, before = [], after = []\<rparr>) \<and>
   spec_varint_encode 2147483648 = [0x80, 0x80, 0x80, 0x80, 0x08]"
  by code_simp

text \<open>
  C5, as stated: \<open>VarInt.decode\<close> always terminates without signaling an error. It does
  not on a buffer that ends before a final byte: on the one-byte buffer \<open>[0x80]\<close> the
  second read is out of range and \<open>getUint8\<close> throws \<open>RangeError\<close>.
\<close>
theorem VarInt_decode_truncated_buffer:
  "decode VarInt \<lparr>view = [0x80], offset = 0, before = [], after = []\<rparr> = (Inl RangeError, \<lparr>view = [0x80], offset = 2, before = [], after = []\<rparr>)"
  by code_simp

text \<open>
  C5, amended. On every buffer \<open>VarInt.decode\<close> leaves the bytes unchanged and advances
  the cursor by at most 10, and the only error it can signal is the \<open>RangeError\<close> of a
  read outside the buffer. When the buffer holds at the cursor at least 10 bytes, or
  fewer with a final byte (continuation bit clear) among them, decoding returns a value
  after reading between 1 and 10 bytes. When nine continuation bytes are followed by a
  final byte greater than 1, it returns the value folded from the nine bytes alone and
  stops after the tenth. When ten continuation bytes come first, it returns the value
  folded from the ten and does not read an eleventh.
\<close>
theorem VarInt_decode_capped:
  "view (snd (decode VarInt s)) = view s
   \<and> offset s \<le> offset (snd (decode VarInt s)) \<and> offset (snd (decode VarInt s)) \<le> offset s + 10
   \<and> (\<forall>e. fst (decode VarInt s) = Inl e \<longrightarrow> e = RangeError)
   \<and> (holds s bs \<and> (10 \<le> length bs \<or> (\<exists>b \<in> set bs. b < 0x80))
        \<longrightarrow> (\<exists>v n. decode VarInt s = (Inr v, skip n s) \<and> 1 \<le> n \<and> n \<le> 10))
   \<and> (holds s (cs @ [b]) \<and> length cs = 9 \<and> (\<forall>c \<in> set cs. 0x80 \<le> c) \<and> 1 < b \<and> b < 0x80
        \<longrightarrow> decode VarInt s = (Inr (fold_groups (map uint cs)), skip 10 s))
   \<and> (holds s ds \<and> length ds = 10 \<and> (\<forall>c \<in> set ds. 0x80 \<le> c)
        \<longrightarrow> decode VarInt s = (Inr (fold_groups (map uint ds)), skip 10 s))"
proof (intro conjI impI allI)
  show "view (snd (decode VarInt s)) = view s"
    and "offset s \<le> offset (snd (decode VarInt s))"
    and "offset (snd (decode VarInt s)) \<le> offset s + 10"
    using VarInt_decode_loop_store [of 0 0 0 s] by (simp_all add: VarInt_def VarInt_decode_def)
next
  fix e assume "fst (decode VarInt s) = Inl e"
  then show "e = RangeError"
    using VarInt_decode_loop_error [of 0 0 0 s e] by (simp add: VarInt_def VarInt_decode_def)
next
  assume "holds s bs \<and> (10 \<le> length bs \<or> (\<exists>b \<in> set bs. b < 0x80))"
  then show "\<exists>v n. decode VarInt s = (Inr v, skip n s) \<and> 1 \<le> n \<and> n \<le> 10"
    using VarInt_decode_loop_returns [of s bs 0 0 0] by (auto simp: VarInt_def VarInt_decode_def)
next
  assume h: "holds s (cs @ [b]) \<and> length cs = 9 \<and> (\<forall>c \<in> set cs. 0x80 \<le> c) \<and> 1 < b \<and> b < 0x80"
  then have "holds s cs \<and> holds (skip (length cs) s) [b]"
    using holds_app [of s cs "[b]"] by blast
  then have hc: "holds s cs" and hb: "holds (skip 9 s) [b]"
    using h by simp_all
  have d: "decode UInt8 (skip 9 s) = (Inr (uint b), skip 1 (skip 9 s))"
    using holds_Cons_byte [OF hb] by simp
  have b: "uint b < 0x80" "1 < uint b" using h by (simp_all add: word_less_def)
  have "decode VarInt s = VarInt_decode_loop (fst (foldl fold_group (0, 0) (map uint cs)))
          (snd (foldl fold_group (0, 0) (map uint cs))) 9 (skip 9 s)"
    using VarInt_decode_loop_continue [OF hc, of 0 0 0] h by (simp add: VarInt_def VarInt_decode_def)
  also have "\<dots> = (Inr (fold_groups (map uint cs)), skip 10 s)"
    using b by (subst VarInt_decode_loop.simps) (simp add: bind_def d return_def fold_groups_def skip_skip)
  finally show "decode VarInt s = (Inr (fold_groups (map uint cs)), skip 10 s)" .
next
  assume h: "holds s ds \<and> length ds = 10 \<and> (\<forall>c \<in> set ds. 0x80 \<le> c)"
  have "decode VarInt s = VarInt_decode_loop (fst (foldl fold_group (0, 0) (map uint ds)))
          (snd (foldl fold_group (0, 0) (map uint ds))) 10 (skip 10 s)"
    using VarInt_decode_loop_continue [of s ds 0 0 0] h by (simp add: VarInt_def VarInt_decode_def)
  also have "\<dots> = (Inr (fold_groups (map uint ds)), skip 10 s)"
    by (subst VarInt_decode_loop.simps) (simp add: return_def fold_groups_def)
  finally show "decode VarInt s = (Inr (fold_groups (map uint ds)), skip 10 s)" .
qed


theorem VarInt_decode_capped_witness:
  "holds \<lparr>view = [0x81, 0x80, 0x80, 0x80, 0x80, 0x80, 0x80, 0x80, 0x80, 0x02], offset = 0, before = [], after = []\<rparr>
         ([0x81, 0x80, 0x80, 0x80, 0x80, 0x80, 0x80, 0x80, 0x80] @ [0x02])
   \<and> decode VarInt \<lparr>view = [0x81, 0x80, 0x80, 0x80, 0x80, 0x80, 0x80, 0x80, 0x80, 0x02], offset = 0, before = [], after = []\<rparr>
       = (Inr 1, \<lparr>view = [0x81, 0x80, 0x80, 0x80, 0x80, 0x80, 0x80, 0x80, 0x80, 0x02], offset = 10, before = [], after = []\<rparr>)
   \<and> holds \<lparr>view = [0xFF, 0xFF, 0xFF, 0xFF, 0xFF, 0xFF, 0xFF, 0xFF, 0xFF, 0xFF, 0x01], offset = 0, before = [], after = []\<rparr>
         [0xFF, 0xFF, 0xFF, 0xFF, 0xFF, 0xFF, 0xFF, 0xFF, 0xFF, 0xFF]
   \<and> decode VarInt \<lparr>view = [0xFF, 0xFF, 0xFF, 0xFF, 0xFF, 0xFF, 0xFF, 0xFF, 0xFF, 0xFF, 0x01], offset = 0, before = [], after = []\<rparr>
       = (Inr (- 1), \<lparr>view = [0xFF, 0xFF, 0xFF, 0xFF, 0xFF, 0xFF, 0xFF, 0xFF, 0xFF, 0xFF, 0x01], offset = 10, before = [], after = []\<rparr>)"
proof -
  let ?cs = "[0x81, 0x80, 0x80, 0x80, 0x80, 0x80, 0x80, 0x80, 0x80] :: u8 list"
  let ?s1 = "\<lparr>view = [0x81, 0x80, 0x80, 0x80, 0x80, 0x80, 0x80, 0x80, 0x80, 0x02], offset = 0, before = [], after = []\<rparr>"
  let ?ds = "[0xFF, 0xFF, 0xFF, 0xFF, 0xFF, 0xFF, 0xFF, 0xFF, 0xFF, 0xFF] :: u8 list"
  let ?s2 = "\<lparr>view = [0xFF, 0xFF, 0xFF, 0xFF, 0xFF, 0xFF, 0xFF, 0xFF, 0xFF, 0xFF, 0x01], offset = 0, before = [], after = []\<rparr>"
  have h1: "holds ?s1 (?cs @ [0x02])" by code_simp
  have h1': "10 \<le> length (?cs @ [0x02]) \<or> (\<exists>b \<in> set (?cs @ [0x02]). b < 0x80)" by simp
  have c1: "length ?cs = 9 \<and> (\<forall>c \<in> set ?cs. 0x80 \<le> c) \<and> (1::u8) < 0x02 \<and> (0x02::u8) < 0x80" by simp
  have v1: "fold_groups (map uint ?cs) = 1" by code_simp
  have k1: "skip 10 ?s1 = \<lparr>view = [0x81, 0x80, 0x80, 0x80, 0x80, 0x80, 0x80, 0x80, 0x80, 0x02], offset = 10, before = [], after = []\<rparr>"
    by (simp add: skip_def)
  have h2: "holds ?s2 ?ds" by code_simp
  have c2: "length ?ds = 10 \<and> (\<forall>c \<in> set ?ds. 0x80 \<le> c)" by simp
  have v2: "fold_groups (map uint ?ds) = - 1" by code_simp
  have k2: "skip 10 ?s2 = \<lparr>view = [0xFF, 0xFF, 0xFF, 0xFF, 0xFF, 0xFF, 0xFF, 0xFF, 0xFF, 0xFF, 0x01], offset = 10, before = [], after = []\<rparr>"
    by (simp add: skip_def)
  have "decode VarInt ?s1 = (Inr (fold_groups (map uint ?cs)), skip 10 ?s1)"
    using VarInt_decode_capped [of ?s1 "?cs @ [0x02]" ?cs "0x02" ?ds] h1 h1' c1 by blast
  moreover have "decode VarInt ?s2 = (Inr (fold_groups (map uint ?ds)), skip 10 ?s2)"
    using VarInt_decode_capped [of ?s2 ?ds ?cs "0x02" ?ds] h2 c2 by blast
  ultimately show ?thesis using h1 h2 by (simp only: v1 v2 k1 k2)
qed

text \<open>
  C6. Claim: for every packet definition and value, \<open>create\<close> returns a buffer of
  exactly \<open>VarIntSize(id) + computeSize(data)\<close> bytes holding the identifier and the
  body, and resets the cursor to 0 before returning. \<open>create_exact\<close> above shows this,
  from a cursor at 0, for every definition whose field codecs write exactly their
  declared size. A definition with a \<open>Float32\<close> field in its last 4 bytes breaks it:
  for identifier 1 and \<open>{f: 1.0}\<close> the 5-byte buffer is too short for \<open>setFloat64\<close> at
  offset 1, \<open>create\<close> throws \<open>RangeError\<close> and leaves the cursor at 5, and the next
  \<open>create\<close> on that cursor throws as well.
\<close>
theorem create_Float32_packet_throws:
  "create FloatPacket 0 [''f'' \<mapsto> JFloat 0x3FF0000000000000] = (Inl RangeError, 5) \<and>
   create (TestPacket e) 5 testData = (Inl RangeError, 6)"
proof
  show "create FloatPacket 0 [''f'' \<mapsto> JFloat 0x3FF0000000000000] = (Inl RangeError, 5)"
    by code_simp
next
  have "create (TestPacket 0) 5 testData = (Inl RangeError, 6)"
    by code_simp
  moreover have "create (TestPacket e) 5 testData = create (TestPacket 0) 5 testData"
    by (rule TestPacket_create_engine)
  ultimately show "create (TestPacket e) 5 testData = (Inl RangeError, 6)"
    by simp
qed



text \<open>
  C8. \<open>VarInt.encode\<close> produces these byte sequences: 0 gives \<open>[0x00]\<close>, 127 gives
  \<open>[0x7F]\<close>, 128 gives \<open>[0x80, 0x01]\<close>, 300 gives \<open>[0xAC, 0x02]\<close> and 16384 gives
  \<open>[0x80, 0x80, 0x01]\<close>; each fills a buffer of \<open>VarInt.size\<close> bytes and leaves the
  cursor at its end.
\<close>
theorem VarInt_literal_vectors:
  "encode_alone VarInt 0 = (Inr (), \<lparr>view = [0x00], offset = 1, before = [], after = []\<rparr>) \<and>
   encode_alone VarInt 127 = (Inr (), \<lparr>view = [0x7F], offset = 1, before = [], after = []\<rparr>) \<and>
   encode_alone VarInt 128 = (Inr (), \<lparr>view = [0x80, 0x01], offset = 2, before = [], after = []\<rparr>) \<and>
   encode_alone VarInt 300 = (Inr (), \<lparr>view = [0xAC, 0x02], offset = 2, before = [], after = []\<rparr>) \<and>
   encode_alone VarInt 16384 = (Inr (), \<lparr>view = [0x80, 0x80, 0x01], offset = 3, before = [], after = []\<rparr>)"
  by code_simp

text \<open>
  C9. Claim: \<open>Str.encode\<close> writes the VarInt of the length and then one byte per
  character, the code unit truncated to 8 bits, \<open>VarIntSize(length) + length\<close> bytes in
  all; and for every string whose code units are at most 255, also of length 0, 1 and
  1000, \<open>Str.decode(Str.encode(s)) = s\<close>. The encoding half holds for every string
  (\<open>Str_encode_place\<close> and \<open>Str_writes_exactly\<close> above), and the round trip holds
  through a view that starts at byte 0 of its buffer for a string of at most as many
  characters as \<open>String.fromCharCode.apply\<close> accepts arguments
  (\<open>Str_roundtrip_within_limit\<close> above; 0, 1 and 1000 characters are within it on every
  engine). \<open>Str.decode\<close> breaks the round trip in two ways. It cuts the characters out
  of \<open>d.buffer\<close> at the offset of the cursor, which counts from the start of the view:
  through a view that starts at byte 1 of the buffer, \<open>"ab"\<close> is encoded as
  \<open>[0x02, 0x61, 0x62]\<close> into the view and decoded as the two characters \<open>0x02\<close>,
  \<open>0x61\<close>. And it passes every character as one argument of a single call: on an engine
  that accepts 129999 arguments, the string of 130000 letters \<open>a\<close> is encoded into
  130003 bytes, and decoding them throws \<open>RangeError\<close>
  (\<open>Str_decode_beyond_limit\<close> above, for every engine and every longer string).
\<close>
theorem Str_decode_breaks_roundtrip:
  "encode (Str e) [0x61, 0x62] \<lparr>view = [0, 0, 0], offset = 0, before = [0x07], after = []\<rparr>
     = (Inr (), \<lparr>view = [0x02, 0x61, 0x62], offset = 3, before = [0x07], after = []\<rparr>) \<and>
   decode (Str e) \<lparr>view = [0x02, 0x61, 0x62], offset = 0, before = [0x07], after = []\<rparr>
     = (Inr [0x02, 0x61], \<lparr>view = [0x02, 0x61, 0x62], offset = 3, before = [0x07], after = []\<rparr>) \<and>
   (\<exists>s'. encode_alone (Str 64464) (replicate 130000 0x61) = (Inr (), s')
         \<and> view s' = [0xD0, 0xF7, 0x07] @ replicate 130000 0x61
         \<and> decode (Str 64464) (s'\<lparr>offset := 0\<rparr>) = (Inl RangeError, s'))"
proof (intro conjI)
  let ?s = "\<lparr>view = [0, 0, 0], offset = 0, before = [0x07], after = []\<rparr>"
  have "encode (Str 0) [0x61, 0x62] ?s
        = (Inr (), \<lparr>view = [0x02, 0x61, 0x62], offset = 3, before = [0x07], after = []\<rparr>)"
    by code_simp
  then show "encode (Str e) [0x61, 0x62] ?s
        = (Inr (), \<lparr>view = [0x02, 0x61, 0x62], offset = 3, before = [0x07], after = []\<rparr>)"
    by (simp add: Str_def)
next
  let ?s = "\<lparr>view = [0x02, 0x61, 0x62], offset = 0, before = [0x07], after = []\<rparr>"
  have b: "decode ByteArray ?s
           = (Inr [0x02, 0x61], \<lparr>view = [0x02, 0x61, 0x62], offset = 3, before = [0x07], after = []\<rparr>)"
    by code_simp
  have f: "fromCharCode [0x02, 0x61] = [0x02, 0x61]" by code_simp
  show "decode (Str e) ?s
        = (Inr [0x02, 0x61], \<lparr>view = [0x02, 0x61, 0x62], offset = 3, before = [0x07], after = []\<rparr>)"
    by (simp add: Str_def bind_def b fromCharCode_apply_accepts return_def f)
next
  define v :: js_string where "v = replicate 130000 0x61"
  define payload :: "u8 list" where "payload = replicate 130000 0x61"
  define bs :: "u8 list" where "bs = [0xD0, 0xF7, 0x07] @ payload"
  define s0 where
    "s0 = \<lparr>view = replicate (size_at (size_of (Str 64464)) v) 0, offset = 0, before = [], after = []\<rparr>"
  have l: "length v = 130000" "length payload = 130000" by (simp_all add: v_def payload_def)
  have c: "map ucast v = payload" by (simp add: v_def payload_def)
  have p: "map word_of_int (spec_varint_encode 130000) = [0xD0, 0xF7, 0x07 :: u8]" by code_simp
  have lp: "length (spec_varint_encode 130000) = 3" using arg_cong [OF p, of length] by simp
  have vs: "VarIntSize 130000 = 3" by code_simp
  have sz: "size_at (size_of (Str 64464)) v = 130003" by (simp add: Str_def size_at_def l vs)
  have lb: "length bs = 130003" by (simp add: bs_def l)
  have ib: "in_bounds s0 (offset s0) (size_at (size_of (Str 64464)) v)"
    by (simp add: s0_def in_bounds_def)
  have ib': "in_bounds s0 (offset s0) (length bs)" using ib by (simp add: sz lb)
  have enc: "encode (Str 64464) v s0 = (Inr (), place bs s0)"
    using Str_encode_place [OF _ ib] by (simp add: l c p bs_def)
  have pv: "view (place bs s0) = bs" by (simp add: place_def s0_def sz lb)
  have o: "offset s0 = 0" "before s0 = []" by (simp_all add: s0_def)
  have h: "holds ((place bs s0)\<lparr>offset := 0\<rparr>)
             (map word_of_int (spec_varint_encode (int (length payload))) @ payload)"
    using holds_place [OF ib'] by (simp add: o l p bs_def)
  have "decode (Str 64464) ((place bs s0)\<lparr>offset := 0\<rparr>)
        = (Inl RangeError, skip (length (spec_varint_encode (int (length payload))) + length payload)
                             ((place bs s0)\<lparr>offset := 0\<rparr>))"
    using Str_decode_beyond_limit [OF _ _ _ h] by (simp add: l o place_def)
  moreover have "skip (length (spec_varint_encode (int (length payload))) + length payload)
                   ((place bs s0)\<lparr>offset := 0\<rparr>) = place bs s0"
    using place_rewind_skip [of bs s0] by (simp add: o l lp lb)
  ultimately have dec: "decode (Str 64464) ((place bs s0)\<lparr>offset := 0\<rparr>) = (Inl RangeError, place bs s0)"
    by simp
  have "encode_alone (Str 64464) v = (Inr (), place bs s0)"
    using enc by (simp add: encode_alone_def s0_def)
  then show "\<exists>s'. encode_alone (Str 64464) (replicate 130000 0x61) = (Inr (), s')
         \<and> view s' = [0xD0, 0xF7, 0x07] @ replicate 130000 0x61
         \<and> decode (Str 64464) (s'\<lparr>offset := 0\<rparr>) = (Inl RangeError, s')"
    using pv dec unfolding v_def bs_def payload_def by blast
qed

text \<open>
  C10. For every integer \<open>v\<close> with \<open>0 \<le> v < 2^31\<close> and every buffer with room for
  \<open>VarInt.size(v)\<close> bytes at the cursor, \<open>VarInt.encode\<close> succeeds, advances the
  cursor by \<open>VarInt.size(v)\<close>, and \<open>VarInt.decode\<close> from the starting offset returns
  \<open>v\<close> and stops where the encoding ends. The range is narrower than the declared one:
  \<open>2^31\<close> encodes to \<open>[0x80, 0x00]\<close>, which decodes to 0.
\<close>
theorem VarInt_roundtrip_below_2_31:
  "(0 \<le> v \<and> v < 2 ^ 31 \<and> in_bounds s (offset s) (VarInt_size v)
    \<longrightarrow> (\<exists>s'. encode VarInt v s = (Inr (), s') \<and> offset s' = offset s + int (VarInt_size v)
               \<and> decode VarInt (s'\<lparr>offset := offset s\<rparr>) = (Inr v, s')))
   \<and> encode_alone VarInt 2147483648 = (Inr (), \<lparr>view = [0x80, 0x00], offset = 2, before = [], after = []\<rparr>)
   \<and> decode VarInt \<lparr>view = [0x80, 0x00], offset = 0, before = [], after = []\<rparr> = (Inr 0, \<lparr>view = [0x80, 0x00], offset = 2, before = [], after = []\<rparr>)"
proof (intro conjI impI)
  assume h: "0 \<le> v \<and> v < 2 ^ 31 \<and> in_bounds s (offset s) (VarInt_size v)"
  let ?bs = "map word_of_int (spec_varint_encode v) :: u8 list"
  have l: "length ?bs = VarInt_size v"
    using h by (simp add: length_spec_varint_encode VarInt_size_spec)
  have "encode VarInt v s = (Inr (), place ?bs s)"
    and "decode VarInt ((place ?bs s)\<lparr>offset := offset s\<rparr>) = (Inr v, place ?bs s)"
    using VarInt_roundtrip [of v s] h by simp_all
  moreover have "offset (place ?bs s) = offset s + int (VarInt_size v)"
    using l by simp
  ultimately show "\<exists>s'. encode VarInt v s = (Inr (), s') \<and> offset s' = offset s + int (VarInt_size v)
               \<and> decode VarInt (s'\<lparr>offset := offset s\<rparr>) = (Inr v, s')"
    by blast
next
  show "encode_alone VarInt 2147483648 = (Inr (), \<lparr>view = [0x80, 0x00], offset = 2, before = [], after = []\<rparr>)"
    by code_simp
next
  show "decode VarInt \<lparr>view = [0x80, 0x00], offset = 0, before = [], after = []\<rparr> = (Inr 0, \<lparr>view = [0x80, 0x00], offset = 2, before = [], after = []\<rparr>)"
    by code_simp
qed

theorem VarInt_roundtrip_below_2_31_witness:
  "(0::int) \<le> 300 \<and> (300::int) < 2 ^ 31
   \<and> in_bounds \<lparr>view = [0, 0], offset = 0, before = [], after = []\<rparr> (offset \<lparr>view = [0, 0], offset = 0, before = [], after = []\<rparr>) (VarInt_size 300)
   \<and> encode VarInt 300 \<lparr>view = [0, 0], offset = 0, before = [], after = []\<rparr> = (Inr (), \<lparr>view = [0xAC, 0x02], offset = 2, before = [], after = []\<rparr>)
   \<and> decode VarInt \<lparr>view = [0xAC, 0x02], offset = 0, before = [], after = []\<rparr> = (Inr 300, \<lparr>view = [0xAC, 0x02], offset = 2, before = [], after = []\<rparr>)"
proof -
  let ?s = "\<lparr>view = [0, 0], offset = 0, before = [], after = []\<rparr>"
  have h: "(0::int) \<le> 300 \<and> (300::int) < 2 ^ 31 \<and> in_bounds ?s (offset ?s) (VarInt_size 300)"
    by code_simp
  have e: "encode VarInt 300 ?s = (Inr (), \<lparr>view = [0xAC, 0x02], offset = 2, before = [], after = []\<rparr>)"
    by code_simp
  obtain s' where "encode VarInt 300 ?s = (Inr (), s')"
    and d: "decode VarInt (s'\<lparr>offset := offset ?s\<rparr>) = (Inr 300, s')"
    using VarInt_roundtrip_below_2_31 [of 300 ?s] h by blast
  then have "s' = \<lparr>view = [0xAC, 0x02], offset = 2, before = [], after = []\<rparr>" using e by simp
  then have "decode VarInt \<lparr>view = [0xAC, 0x02], offset = 0, before = [], after = []\<rparr>
             = (Inr 300, \<lparr>view = [0xAC, 0x02], offset = 2, before = [], after = []\<rparr>)"
    using d by simp
  then show ?thesis using h e by blast
qed

end
